theory Spec2Isabelle
  imports Complex_Main "HOL-Library.AList" "HOL-Library.Sublist"
begin

section \<open>Data model\<close>

text \<open>
  The two dataclasses of \<^verbatim>\<open>graphcodebert_embedder.py\<close>. A numpy vector is a list of
  numbers; floating-point values are idealised as reals, so nothing below speaks about
  rounding. The field \<^verbatim>\<open>id\<close> is written \<open>id'\<close>.
\<close>

type_synonym ndarray = "real list"

record CodeNode =
  id' :: string
  file_path :: string
  node_type :: string
  name :: string
  code :: string
  start_line :: int
  end_line :: int
  embedding :: "ndarray option"

record CodeRelation =
  source_id :: string
  target_id :: string
  relation_type :: string
  confidence :: real

text \<open>The exceptions that the modelled code and its libraries raise.\<close>

datatype error =
    TypeError
  | KeyError
  | ValueError
  | AssertionError
  | NodeNotFound
  | NetworkXError
  | NetworkXNoPath
  | FileNotFoundError
  | JSONDecodeError
  | BackendError

section \<open>The FAISS backend (\<^verbatim>\<open>vector_database.py\<close>, class FAISSInterface)\<close>

subsection \<open>The library index\<close>

text \<open>
  \<^verbatim>\<open>faiss.IndexFlatIP(dimension)\<close>: a flat matrix of vectors of one fixed dimension,
  ranked by exact inner product. \<^verbatim>\<open>add\<close> appends rows and asserts that their
  width is the index's dimension; \<^verbatim>\<open>search\<close> asserts the same of the query and
  that \<open>k\<close> is positive, returns the \<open>k\<close> best rows by decreasing score, and pads with
  the label \<open>-1\<close> when fewer than \<open>k\<close> rows are stored. Rows of equal score are
  listed by increasing slot here.
\<close>

record IndexFlatIP =
  d :: nat
  xb :: "ndarray list"

definition ntotal :: "IndexFlatIP \<Rightarrow> nat" where
  "ntotal ix = length (xb ix)"

definition IndexFlatIP_new :: "nat \<Rightarrow> IndexFlatIP" where
  "IndexFlatIP_new n = \<lparr>d = n, xb = []\<rparr>"

definition np_dot :: "ndarray \<Rightarrow> ndarray \<Rightarrow> real" where
  "np_dot u v = sum_list (map (\<lambda>(a, b). a * b) (zip u v))"

text \<open>\<^verbatim>\<open>np.array(rows)\<close> on a list of vectors: a matrix when the rows have one length.\<close>

definition np_array_rows :: "ndarray list \<Rightarrow> error + ndarray list" where
  "np_array_rows rows =
     (case rows of
        [] \<Rightarrow> Inr []
      | r # rs \<Rightarrow> if list_all (\<lambda>x. length x = length r) rs then Inr rows else Inl ValueError)"

definition IndexFlatIP_add :: "ndarray list \<Rightarrow> IndexFlatIP \<Rightarrow> error + IndexFlatIP" where
  "IndexFlatIP_add rows ix =
     (if list_all (\<lambda>x. length x = d ix) rows
      then Inr (ix\<lparr>xb := xb ix @ rows\<rparr>)
      else Inl AssertionError)"

definition pad_score :: real where
  "pad_score = - (2 - 1 / 2 ^ 23) * 2 ^ 127"

definition IndexFlatIP_search :: "ndarray \<Rightarrow> int \<Rightarrow> IndexFlatIP \<Rightarrow> error + (real \<times> int) list" where
  "IndexFlatIP_search q k ix =
     (if length q \<noteq> d ix then Inl AssertionError
      else if k \<le> 0 then Inl AssertionError
      else
        let scored = map (\<lambda>(i, x). (np_dot q x, int i)) (enumerate 0 (xb ix));
            ranked = sort_key (\<lambda>(s, i). - s) scored;
            hits = take (nat k) ranked
        in Inr (hits @ replicate (nat k - length hits) (pad_score, - 1)))"

subsection \<open>The interface object\<close>

text \<open>
  The dictionaries are association lists in insertion order, updated with
  \<open>AList.update\<close> (an existing key keeps its place, a new key goes last), as a Python
  dict does. \<^verbatim>\<open>_save_index\<close> only writes files and is left out; the constructor
  is modelled for the case that no index file exists yet.
\<close>

record FAISSInterface =
  dimension :: nat
  index :: IndexFlatIP
  node_metadata :: "(int \<times> CodeNode) list"
  id_to_index :: "(string \<times> int) list"
  index_to_id :: "(int \<times> string) list"
  next_index :: int

definition FAISSInterface_init :: "nat \<Rightarrow> FAISSInterface" where
  "FAISSInterface_init n =
     \<lparr>dimension = n, index = IndexFlatIP_new n, node_metadata = [],
      id_to_index = [], index_to_id = [], next_index = 0\<rparr>"

text \<open>The loop of \<^verbatim>\<open>add_embeddings\<close> that records the metadata of the valid nodes.\<close>

fun register_nodes :: "CodeNode list \<Rightarrow> FAISSInterface \<Rightarrow> FAISSInterface" where
  "register_nodes [] s = s"
| "register_nodes (node # nodes) s =
     register_nodes nodes
       (s\<lparr>node_metadata := AList.update (next_index s) node (node_metadata s),
          id_to_index := AList.update (id' node) (next_index s) (id_to_index s),
          index_to_id := AList.update (next_index s) (id' node) (index_to_id s),
          next_index := next_index s + 1\<rparr>)"

definition faiss_add_embeddings ::
  "CodeNode list \<Rightarrow> FAISSInterface \<Rightarrow> (error + unit) \<times> FAISSInterface" where
  "faiss_add_embeddings nodes s =
     (let valid_nodes = filter (\<lambda>node. embedding node \<noteq> None) nodes;
          embeddings = map (\<lambda>node. the (embedding node)) valid_nodes
      in if embeddings = [] then (Inr (), s)
         else case np_array_rows embeddings of
                Inl e \<Rightarrow> (Inl e, s)
              | Inr embeddings_array \<Rightarrow>
                  (case IndexFlatIP_add embeddings_array (index s) of
                     Inl e \<Rightarrow> (Inl e, s)
                   | Inr ix \<Rightarrow> (Inr (), register_nodes valid_nodes (s\<lparr>index := ix\<rparr>))))"

definition faiss_search ::
  "ndarray \<Rightarrow> int \<Rightarrow> FAISSInterface \<Rightarrow> error + (string \<times> real) list" where
  "faiss_search query_embedding top_k s =
     (case IndexFlatIP_search query_embedding top_k (index s) of
        Inl e \<Rightarrow> Inl e
      | Inr found \<Rightarrow>
          Inr (concat (map (\<lambda>(score, idx).
                 case map_of (index_to_id s) idx of
                   Some node_id \<Rightarrow> [(node_id, score)]
                 | None \<Rightarrow> []) found)))"

definition faiss_get_node :: "string \<Rightarrow> FAISSInterface \<Rightarrow> CodeNode option" where
  "faiss_get_node node_id s =
     (case map_of (id_to_index s) node_id of
        Some idx \<Rightarrow> map_of (node_metadata s) idx
      | None \<Rightarrow> None)"

definition faiss_update_node :: "CodeNode \<Rightarrow> FAISSInterface \<Rightarrow> FAISSInterface" where
  "faiss_update_node node s =
     (case map_of (id_to_index s) (id' node) of
        Some idx \<Rightarrow> s\<lparr>node_metadata := AList.update idx node (node_metadata s)\<rparr>
      | None \<Rightarrow> s)"

text \<open>
  \<^verbatim>\<open>del d[k]\<close> raises KeyError on a missing key; the three deletions of
  \<^verbatim>\<open>delete_node\<close> run in the source's order, so a failure of the first or the third
  leaves what ran before it.
\<close>

definition faiss_delete_node ::
  "string \<Rightarrow> FAISSInterface \<Rightarrow> (error + unit) \<times> FAISSInterface" where
  "faiss_delete_node node_id s =
     (case map_of (id_to_index s) node_id of
        None \<Rightarrow> (Inr (), s)
      | Some idx \<Rightarrow>
          if map_of (node_metadata s) idx = None then (Inl KeyError, s)
          else
            let s1 = s\<lparr>node_metadata := AList.delete idx (node_metadata s)\<rparr>;
                s2 = s1\<lparr>id_to_index := AList.delete node_id (id_to_index s1)\<rparr>
            in if map_of (index_to_id s2) idx = None then (Inl KeyError, s2)
               else (Inr (), s2\<lparr>index_to_id := AList.delete idx (index_to_id s2)\<rparr>))"

definition faiss_get_all_nodes :: "FAISSInterface \<Rightarrow> CodeNode list" where
  "faiss_get_all_nodes s = map snd (node_metadata s)"

subsection \<open>Example nodes\<close>

definition node_a :: CodeNode where
  "node_a = \<lparr>id' = ''com.example.A'', file_path = ''A.java'', node_type = ''class'',
     name = ''A'', code = ''class A {}'', start_line = 1, end_line = 1,
     embedding = Some [1, 0]\<rparr>"

definition node_b :: CodeNode where
  "node_b = \<lparr>id' = ''com.example.B'', file_path = ''B.java'', node_type = ''class'',
     name = ''B'', code = ''class B {}'', start_line = 1, end_line = 1,
     embedding = Some [0, 1]\<rparr>"

definition faiss_with_b :: FAISSInterface where
  "faiss_with_b = snd (faiss_add_embeddings [node_b] (FAISSInterface_init 2))"

section \<open>The call graph (\<^verbatim>\<open>networkx.DiGraph\<close>)\<close>

text \<open>
  A directed graph without parallel edges: the node dictionary, and one entry for each
  ordered pair of nodes joined by an edge, holding the edge's attributes
  (\<^verbatim>\<open>relation_type\<close>, \<^verbatim>\<open>confidence\<close>). Both are in insertion order, which is the
  order in which networkx lists the successors and the predecessors of a node. The
  attributes of a node are the fields of the CodeNode it was added with, or nothing when
  only \<^verbatim>\<open>add_edge\<close> made it a node. \<^verbatim>\<open>add_edge\<close> makes both endpoints nodes and, for
  a pair that has an edge already, overwrites the attributes.
\<close>

record DiGraph =
  nx_node :: "(string \<times> CodeNode option) list"
  nx_adj :: "((string \<times> string) \<times> (string \<times> real)) list"

definition DiGraph_new :: DiGraph where
  "DiGraph_new = \<lparr>nx_node = [], nx_adj = []\<rparr>"

definition has_node :: "DiGraph \<Rightarrow> string \<Rightarrow> bool" where
  "has_node G n = (map_of (nx_node G) n \<noteq> None)"

definition add_node :: "string \<Rightarrow> CodeNode \<Rightarrow> DiGraph \<Rightarrow> DiGraph" where
  "add_node n attrs G = G\<lparr>nx_node := AList.update n (Some attrs) (nx_node G)\<rparr>"

definition touch_node :: "string \<Rightarrow> DiGraph \<Rightarrow> DiGraph" where
  "touch_node n G = (if has_node G n then G else G\<lparr>nx_node := nx_node G @ [(n, None)]\<rparr>)"

definition add_edge :: "string \<Rightarrow> string \<Rightarrow> string \<times> real \<Rightarrow> DiGraph \<Rightarrow> DiGraph" where
  "add_edge u v attrs G =
     (let G1 = touch_node u G; G2 = touch_node v G1
      in G2\<lparr>nx_adj := AList.update (u, v) attrs (nx_adj G2)\<rparr>)"

definition number_of_edges :: "DiGraph \<Rightarrow> nat" where
  "number_of_edges G = length (nx_adj G)"

definition successor_edges :: "DiGraph \<Rightarrow> (string \<times> string) list" where
  "successor_edges G = map fst (nx_adj G)"

definition predecessor_edges :: "DiGraph \<Rightarrow> (string \<times> string) list" where
  "predecessor_edges G = map (\<lambda>((u, v), a). (v, u)) (nx_adj G)"

definition adjacent :: "(string \<times> string) list \<Rightarrow> string \<Rightarrow> string list" where
  "adjacent E n = map snd (filter (\<lambda>(u, v). u = n) E)"

definition successors :: "DiGraph \<Rightarrow> string \<Rightarrow> error + string list" where
  "successors G n =
     (if has_node G n then Inr (adjacent (successor_edges G) n) else Inl NetworkXError)"

definition predecessors :: "DiGraph \<Rightarrow> string \<Rightarrow> error + string list" where
  "predecessors G n =
     (if has_node G n then Inr (adjacent (predecessor_edges G) n) else Inl NetworkXError)"

text \<open>
  \<^verbatim>\<open>successors\<close> and \<^verbatim>\<open>predecessors\<close> raise NetworkXError for an id that is not a
  node.

  The \<^verbatim>\<open>while queue\<close> loop of \<^verbatim>\<open>get_upstream_dependencies\<close> and
  \<^verbatim>\<open>get_downstream_dependencies\<close>, which differ only in the edges they follow: \<open>E\<close> is
  the list of edges, each in the direction of the traversal. The queue holds pairs of an id
  and its depth, \<^verbatim>\<open>queue.pop(0)\<close> takes the head, and the two Python sets are sets. Inside
  the loop \<open>adjacent\<close> reads the neighbours: every id in the queue is the checked start
  or an endpoint of an edge, hence a node of the graph (\<open>neighbours_are_nodes\<close> below),
  and the graph's methods do not raise there. The loop ends on every input: an iteration
  either visits a new node that has edges or shortens the queue.
\<close>

function traverse ::
  "(string \<times> string) list \<Rightarrow> int \<Rightarrow> (string \<times> int) list \<Rightarrow> string set \<Rightarrow> string set
     \<Rightarrow> string set" where
  "traverse E max_depth [] visited found = found"
| "traverse E max_depth ((current, depth) # queue) visited found =
     (if current \<in> visited \<or> depth \<ge> max_depth
      then traverse E max_depth queue visited found
      else traverse E max_depth
             (queue @ map (\<lambda>n. (n, depth + 1))
                        (filter (\<lambda>n. n \<notin> insert current visited) (adjacent E current)))
             (insert current visited)
             (found \<union> set (adjacent E current)))"
  by pat_completeness auto
termination
proof (relation "measures [\<lambda>(E, m, q, vis, f). card (fst ` set E - vis),
                           \<lambda>(E, m, q, vis, f). length q]", goal_cases)
  case 1
  show ?case by simp
next
  case (2 E max_depth current depth queue visited found)
  show ?case by simp
next
  case (3 E max_depth current depth queue visited found)
  show ?case
  proof (cases "current \<in> fst ` set E")
    case True
    with 3 have "fst ` set E - insert current visited \<subset> fst ` set E - visited"
      by auto
    then have "card (fst ` set E - insert current visited) < card (fst ` set E - visited)"
      by (intro psubset_card_mono) auto
    then show ?thesis by simp
  next
    case False
    then have "adjacent E current = []"
      by (auto simp: adjacent_def filter_empty_conv image_iff)
    moreover from False have "fst ` set E - insert current visited = fst ` set E - visited"
      by auto
    ultimately show ?thesis by simp
  qed
qed

text \<open>
  \<^verbatim>\<open>nx.shortest_path(G, source, target)\<close>: NodeNotFound when an endpoint is not a node
  of the graph, NetworkXNoPath when the target cannot be reached. Which shortest path the
  library picks among several is its own business: \<open>path_of\<close> stands for its search
  between two nodes of the graph, \<open>None\<close> meaning that there is no path.
\<close>

definition shortest_path ::
  "(DiGraph \<Rightarrow> string \<Rightarrow> string \<Rightarrow> string list option) \<Rightarrow> DiGraph \<Rightarrow> string \<Rightarrow> string
     \<Rightarrow> error + string list" where
  "shortest_path path_of G source target =
     (if \<not> has_node G source \<or> \<not> has_node G target then Inl NodeNotFound
      else case path_of G source target of
             None \<Rightarrow> Inl NetworkXNoPath
           | Some path \<Rightarrow> Inr path)"

section \<open>The embedder (\<^verbatim>\<open>graphcodebert_embedder.py\<close>, class GraphCodeBERTEmbedder)\<close>

record GraphCodeBERTEmbedder =
  code_nodes :: "(string \<times> CodeNode) list"
  code_relations :: "CodeRelation list"
  call_graph :: DiGraph

definition GraphCodeBERTEmbedder_init :: GraphCodeBERTEmbedder where
  "GraphCodeBERTEmbedder_init = \<lparr>code_nodes = [], code_relations = [], call_graph = DiGraph_new\<rparr>"

definition add_code_node ::
  "(string \<Rightarrow> error + ndarray) \<Rightarrow> CodeNode \<Rightarrow> GraphCodeBERTEmbedder
     \<Rightarrow> (error + unit) \<times> GraphCodeBERTEmbedder" where
  "add_code_node encode_code node st =
     (case encode_code (code node) of
        Inl e \<Rightarrow> (Inl e, st)
      | Inr vec \<Rightarrow>
          let node' = node\<lparr>embedding := Some vec\<rparr>
          in (Inr (), st\<lparr>code_nodes := AList.update (id' node') node' (code_nodes st),
                         call_graph := add_node (id' node') node' (call_graph st)\<rparr>))"

definition add_code_relation :: "CodeRelation \<Rightarrow> GraphCodeBERTEmbedder \<Rightarrow> GraphCodeBERTEmbedder" where
  "add_code_relation relation st =
     st\<lparr>code_relations := code_relations st @ [relation],
        call_graph := add_edge (source_id relation) (target_id relation)
                        (relation_type relation, confidence relation) (call_graph st)\<rparr>"

definition np_linalg_norm :: "ndarray \<Rightarrow> real" where
  "np_linalg_norm v = sqrt (sum_list (map (\<lambda>a. a * a) v))"

text \<open>\<^verbatim>\<open>np.dot\<close> of two vectors raises ValueError when their lengths differ.\<close>

definition cosine_similarity :: "ndarray \<Rightarrow> ndarray \<Rightarrow> error + real" where
  "cosine_similarity vec1 vec2 =
     (if length vec1 \<noteq> length vec2 then Inl ValueError
      else let dot_product = np_dot vec1 vec2;
               norm1 = np_linalg_norm vec1;
               norm2 = np_linalg_norm vec2
           in if norm1 = 0 \<or> norm2 = 0 then Inr 0
              else Inr (dot_product / (norm1 * norm2)))"

text \<open>The loop of \<^verbatim>\<open>get_similar_nodes\<close> over \<^verbatim>\<open>code_nodes.items()\<close>.\<close>

fun similarities_of ::
  "ndarray \<Rightarrow> (string \<times> CodeNode) list \<Rightarrow> error + (string \<times> real) list" where
  "similarities_of query_embedding [] = Inr []"
| "similarities_of query_embedding ((node_id, node) # items) =
     (case embedding node of
        None \<Rightarrow> similarities_of query_embedding items
      | Some vec \<Rightarrow>
          (case cosine_similarity query_embedding vec of
             Inl e \<Rightarrow> Inl e
           | Inr similarity \<Rightarrow>
               (case similarities_of query_embedding items of
                  Inl e \<Rightarrow> Inl e
                | Inr rest \<Rightarrow> Inr ((node_id, similarity) # rest))))"

text \<open>A Python slice \<^verbatim>\<open>xs[:k]\<close>; a negative \<open>k\<close> counts from the end.\<close>

definition slice_to :: "int \<Rightarrow> 'a list \<Rightarrow> 'a list" where
  "slice_to k xs = (if k < 0 then take (length xs - nat (- k)) xs else take (nat k) xs)"

definition get_similar_nodes ::
  "(string \<Rightarrow> error + ndarray) \<Rightarrow> GraphCodeBERTEmbedder \<Rightarrow> string \<Rightarrow> int
     \<Rightarrow> error + (string \<times> real) list" where
  "get_similar_nodes encode_code st query_code top_k =
     (case encode_code query_code of
        Inl e \<Rightarrow> Inl e
      | Inr query_embedding \<Rightarrow>
          (case similarities_of query_embedding (code_nodes st) of
             Inl e \<Rightarrow> Inl e
           | Inr similarities \<Rightarrow>
               Inr (slice_to top_k (sort_key (\<lambda>x. - snd x) similarities))))"

definition get_upstream_dependencies :: "GraphCodeBERTEmbedder \<Rightarrow> string \<Rightarrow> int \<Rightarrow> string set" where
  "get_upstream_dependencies st node_id max_depth =
     (if \<not> has_node (call_graph st) node_id then {}
      else traverse (predecessor_edges (call_graph st)) max_depth [(node_id, 0)] {} {})"

definition get_downstream_dependencies :: "GraphCodeBERTEmbedder \<Rightarrow> string \<Rightarrow> int \<Rightarrow> string set" where
  "get_downstream_dependencies st node_id max_depth =
     (if \<not> has_node (call_graph st) node_id then {}
      else traverse (successor_edges (call_graph st)) max_depth [(node_id, 0)] {} {})"


definition get_call_path ::
  "(DiGraph \<Rightarrow> string \<Rightarrow> string \<Rightarrow> string list option) \<Rightarrow> GraphCodeBERTEmbedder
     \<Rightarrow> string \<Rightarrow> string \<Rightarrow> error + string list" where
  "get_call_path path_of st source target =
     (case shortest_path path_of (call_graph st) source target of
        Inr path \<Rightarrow> Inr path
      | Inl e \<Rightarrow> if e = NetworkXNoPath then Inr [] else Inl e)"

record impact =
  upstream :: "string set"
  downstream :: "string set"
  direct_callers :: "string list"
  direct_callees :: "string list"

definition analyze_impact :: "GraphCodeBERTEmbedder \<Rightarrow> string \<Rightarrow> error + impact" where
  "analyze_impact st node_id =
     (let up = get_upstream_dependencies st node_id 3;
          down = get_downstream_dependencies st node_id 3
      in case predecessors (call_graph st) node_id of
           Inl e \<Rightarrow> Inl e
         | Inr callers \<Rightarrow>
             (case successors (call_graph st) node_id of
                Inl e \<Rightarrow> Inl e
              | Inr callees \<Rightarrow>
                  Inr \<lparr>upstream = up, downstream = down,
                       direct_callers = callers, direct_callees = callees\<rparr>))"

text \<open>
  \<^verbatim>\<open>get_statistics\<close>: the three counts; the two component counts of the source are
  computed by networkx from the same graph and are not modelled.
\<close>

record statistics =
  total_nodes :: nat
  total_relations :: nat
  total_edges :: nat

definition get_statistics :: "GraphCodeBERTEmbedder \<Rightarrow> statistics" where
  "get_statistics st =
     \<lparr>total_nodes = length (code_nodes st),
      total_relations = length (code_relations st),
      total_edges = number_of_edges (call_graph st)\<rparr>"

subsection \<open>Snapshots\<close>

text \<open>
  The document that \<^verbatim>\<open>export_embeddings\<close> hands to \<^verbatim>\<open>json.dump\<close> and that
  \<^verbatim>\<open>load_embeddings\<close> gets from \<^verbatim>\<open>json.load\<close>. A key that may be missing is an
  option (\<open>None\<close>: the key is absent); the values under the keys have the types of the
  dataclass fields, and the metadata has no key beyond the eight fields. The value
  of an \<^verbatim>\<open>embedding\<close> key is \<^verbatim>\<open>None\<close>, a list of numbers, or a numpy array, which
  \<^verbatim>\<open>json.dump\<close> cannot write.
\<close>

datatype pyvalue = PyNone | PyList "real list" | PyNdarray "real list"

record metadata_dict =
  md_id :: "string option"
  md_file_path :: "string option"
  md_node_type :: "string option"
  md_name :: "string option"
  md_code :: "string option"
  md_start_line :: "int option"
  md_end_line :: "int option"
  md_embedding :: "pyvalue option"

record node_data =
  nd_metadata :: "metadata_dict option"
  nd_embedding :: "pyvalue option"

record relation_dict =
  rd_source_id :: "string option"
  rd_target_id :: "string option"
  rd_relation_type :: "string option"
  rd_confidence :: "real option"

record snapshot =
  snap_nodes :: "(string \<times> node_data) list option"
  snap_relations :: "relation_dict list option"

text \<open>\<^verbatim>\<open>dataclasses.asdict\<close>: every field under its name; the array is copied as it is.\<close>

definition asdict_node :: "CodeNode \<Rightarrow> metadata_dict" where
  "asdict_node node =
     \<lparr>md_id = Some (id' node), md_file_path = Some (file_path node),
      md_node_type = Some (node_type node), md_name = Some (name node),
      md_code = Some (code node), md_start_line = Some (start_line node),
      md_end_line = Some (end_line node),
      md_embedding = Some (case embedding node of None \<Rightarrow> PyNone | Some v \<Rightarrow> PyNdarray v)\<rparr>"

definition asdict_relation :: "CodeRelation \<Rightarrow> relation_dict" where
  "asdict_relation rel =
     \<lparr>rd_source_id = Some (source_id rel), rd_target_id = Some (target_id rel),
      rd_relation_type = Some (relation_type rel), rd_confidence = Some (confidence rel)\<rparr>"

definition is_ndarray :: "pyvalue option \<Rightarrow> bool" where
  "is_ndarray x = (case x of Some (PyNdarray v) \<Rightarrow> True | _ \<Rightarrow> False)"

definition node_data_serializable :: "node_data \<Rightarrow> bool" where
  "node_data_serializable nd =
     (\<not> is_ndarray (nd_embedding nd) \<and>
      (case nd_metadata nd of None \<Rightarrow> True | Some m \<Rightarrow> \<not> is_ndarray (md_embedding m)))"

text \<open>
  A file holds a document, or the beginning of one when \<^verbatim>\<open>json.dump\<close> stopped
  on a value that it cannot write (the file was opened for writing before).
\<close>

datatype file_content = Document snapshot | Incomplete

definition json_dump :: "snapshot \<Rightarrow> error + snapshot" where
  "json_dump data =
     (if (case snap_nodes data of None \<Rightarrow> True
          | Some items \<Rightarrow> list_all (\<lambda>(node_id, nd). node_data_serializable nd) items)
      then Inr data else Inl TypeError)"

definition export_embeddings ::
  "string \<Rightarrow> GraphCodeBERTEmbedder \<Rightarrow> (string \<rightharpoonup> file_content)
     \<Rightarrow> (error + unit) \<times> (string \<rightharpoonup> file_content)" where
  "export_embeddings output_path st files =
     (let data =
            \<lparr>snap_nodes = Some (map (\<lambda>(node_id, node).
                 (node_id,
                  \<lparr>nd_metadata = Some (asdict_node node),
                   nd_embedding = Some (case embedding node of
                                          None \<Rightarrow> PyNone | Some v \<Rightarrow> PyList v)\<rparr>))
                 (code_nodes st)),
             snap_relations = Some (map asdict_relation (code_relations st))\<rparr>
      in case json_dump data of
           Inl e \<Rightarrow> (Inl e, files(output_path \<mapsto> Incomplete))
         | Inr doc \<Rightarrow> (Inr (), files(output_path \<mapsto> Document doc)))"

text \<open>The truth value of an \<^verbatim>\<open>embedding\<close> entry; an array of several numbers has none.\<close>

definition truthy :: "pyvalue \<Rightarrow> error + bool" where
  "truthy x =
     (case x of
        PyNone \<Rightarrow> Inr False
      | PyList v \<Rightarrow> Inr (v \<noteq> [])
      | PyNdarray v \<Rightarrow>
          (case v of [] \<Rightarrow> Inr False | [a] \<Rightarrow> Inr (a \<noteq> 0) | _ \<Rightarrow> Inl ValueError))"

definition np_array :: "pyvalue \<Rightarrow> ndarray" where
  "np_array x = (case x of PyNone \<Rightarrow> [] | PyList v \<Rightarrow> v | PyNdarray v \<Rightarrow> v)"

text \<open>\<^verbatim>\<open>CodeNode(**metadata)\<close>: TypeError when one of the seven required fields is missing.\<close>

definition CodeNode_init :: "metadata_dict \<Rightarrow> error + CodeNode" where
  "CodeNode_init m =
     (case (md_id m, md_file_path m, md_node_type m, md_name m, md_code m,
            md_start_line m, md_end_line m) of
        (Some i, Some f, Some t, Some n, Some c, Some s, Some e) \<Rightarrow>
          Inr \<lparr>id' = i, file_path = f, node_type = t, name = n, code = c,
               start_line = s, end_line = e, embedding = None\<rparr>
      | _ \<Rightarrow> Inl TypeError)"

definition CodeRelation_init :: "relation_dict \<Rightarrow> error + CodeRelation" where
  "CodeRelation_init r =
     (case (rd_source_id r, rd_target_id r, rd_relation_type r, rd_confidence r) of
        (Some s, Some t, Some k, Some c) \<Rightarrow>
          Inr \<lparr>source_id = s, target_id = t, relation_type = k, confidence = c\<rparr>
      | _ \<Rightarrow> Inl TypeError)"

fun load_nodes ::
  "(string \<times> node_data) list \<Rightarrow> GraphCodeBERTEmbedder
     \<Rightarrow> (error + unit) \<times> GraphCodeBERTEmbedder" where
  "load_nodes [] st = (Inr (), st)"
| "load_nodes ((node_id, nd) # items) st =
     (case nd_metadata nd of
        None \<Rightarrow> (Inl KeyError, st)
      | Some metadata \<Rightarrow>
          (case nd_embedding nd of
             None \<Rightarrow> (Inl KeyError, st)
           | Some raw \<Rightarrow>
               (case truthy raw of
                  Inl e \<Rightarrow> (Inl e, st)
                | Inr t \<Rightarrow>
                    (case CodeNode_init metadata of
                       Inl e \<Rightarrow> (Inl e, st)
                     | Inr node0 \<Rightarrow>
                         let node = node0\<lparr>embedding := (if t then Some (np_array raw) else None)\<rparr>
                         in load_nodes items
                              (st\<lparr>code_nodes := AList.update node_id node (code_nodes st),
                                  call_graph := add_node node_id node (call_graph st)\<rparr>)))))"

fun load_relations ::
  "relation_dict list \<Rightarrow> GraphCodeBERTEmbedder \<Rightarrow> (error + unit) \<times> GraphCodeBERTEmbedder" where
  "load_relations [] st = (Inr (), st)"
| "load_relations (rel_data # rest) st =
     (case CodeRelation_init rel_data of
        Inl e \<Rightarrow> (Inl e, st)
      | Inr relation \<Rightarrow> load_relations rest (add_code_relation relation st))"

definition load_embeddings ::
  "string \<Rightarrow> (string \<rightharpoonup> file_content) \<Rightarrow> GraphCodeBERTEmbedder
     \<Rightarrow> (error + unit) \<times> GraphCodeBERTEmbedder" where
  "load_embeddings input_path files st =
     (case files input_path of
        None \<Rightarrow> (Inl FileNotFoundError, st)
      | Some Incomplete \<Rightarrow> (Inl JSONDecodeError, st)
      | Some (Document data) \<Rightarrow>
          (case snap_nodes data of
             None \<Rightarrow> (Inl KeyError, st)
           | Some items \<Rightarrow>
               (case load_nodes items st of
                  (Inl e, st1) \<Rightarrow> (Inl e, st1)
                | (Inr u, st1) \<Rightarrow>
                    (case snap_relations data of
                       None \<Rightarrow> (Inl KeyError, st1)
                     | Some rels \<Rightarrow> load_relations rels st1))))"

section \<open>The system (\<^verbatim>\<open>main.py\<close>, class JavaCodeEmbeddingSystem)\<close>

record search_result =
  r_node_id :: string
  r_similarity :: real
  r_node_type :: string
  r_name :: string
  r_file_path :: string
  r_code :: string

text \<open>
  \<open>encode_code\<close> is the embedding model and \<open>vector_db_search\<close> the \<^verbatim>\<open>search\<close>
  method of the configured backend; each returns its value or raises.
\<close>

text \<open>The loop of \<^verbatim>\<open>search_similar_code\<close> that builds the result list.\<close>

definition result_rows :: "GraphCodeBERTEmbedder \<Rightarrow> (string \<times> real) list \<Rightarrow> search_result list" where
  "result_rows st embedder_results =
     concat (map (\<lambda>(node_id, similarity).
       case map_of (code_nodes st) node_id of
         None \<Rightarrow> []
       | Some node \<Rightarrow>
           [\<lparr>r_node_id = node_id, r_similarity = similarity,
             r_node_type = node_type node, r_name = name node,
             r_file_path = file_path node, r_code = code node\<rparr>])
       embedder_results)"

definition search_similar_code ::
  "(string \<Rightarrow> error + ndarray) \<Rightarrow> (ndarray \<Rightarrow> int \<Rightarrow> error + (string \<times> real) list)
     \<Rightarrow> GraphCodeBERTEmbedder \<Rightarrow> string \<Rightarrow> int \<Rightarrow> error + search_result list" where
  "search_similar_code encode_code vector_db_search st query_code top_k =
     (case get_similar_nodes encode_code st query_code top_k of
        Inl e \<Rightarrow> Inl e
      | Inr embedder_results \<Rightarrow>
          (case encode_code query_code of
             Inl e \<Rightarrow> Inl e
           | Inr query_embedding \<Rightarrow>
               (case vector_db_search query_embedding top_k of
                  Inl e \<Rightarrow> Inl e
                | Inr db_results \<Rightarrow> Inr (result_rows st embedder_results))))"

subsection \<open>Example stores\<close>

definition chain_store :: GraphCodeBERTEmbedder where
  "chain_store =
     add_code_relation \<lparr>source_id = ''C'', target_id = ''D'', relation_type = ''call'', confidence = 1\<rparr>
       (add_code_relation \<lparr>source_id = ''B'', target_id = ''C'', relation_type = ''call'', confidence = 1\<rparr>
          (add_code_relation \<lparr>source_id = ''A'', target_id = ''B'', relation_type = ''call'', confidence = 1\<rparr>
             GraphCodeBERTEmbedder_init))"

definition rel_call :: CodeRelation where
  "rel_call = \<lparr>source_id = ''A'', target_id = ''B'', relation_type = ''call'', confidence = 1\<rparr>"

definition rel_reference :: CodeRelation where
  "rel_reference =
     \<lparr>source_id = ''A'', target_id = ''B'', relation_type = ''reference'', confidence = 1\<rparr>"

subsection \<open>Example system\<close>

definition encode_unit :: "string \<Rightarrow> error + ndarray" where
  "encode_unit text = Inr [1, 0]"

definition backend_down :: "ndarray \<Rightarrow> int \<Rightarrow> error + (string \<times> real) list" where
  "backend_down query_embedding top_k = Inl BackendError"

definition backend_up :: "ndarray \<Rightarrow> int \<Rightarrow> error + (string \<times> real) list" where
  "backend_up query_embedding top_k = Inr []"

definition store_a :: GraphCodeBERTEmbedder where
  "store_a = snd (add_code_node encode_unit node_a GraphCodeBERTEmbedder_init)"

subsection \<open>Documents that load\<close>

text \<open>
  A node record loads when both of its keys are present, its embedding entry has a truth
  value and its metadata has the required fields; a relation record loads when it has
  its four fields.
\<close>

definition node_record_ok :: "node_data \<Rightarrow> bool" where
  "node_record_ok nd =
     (case (nd_metadata nd, nd_embedding nd) of
        (Some m, Some raw) \<Rightarrow>
          (case (truthy raw, CodeNode_init m) of (Inr t, Inr node) \<Rightarrow> True | _ \<Rightarrow> False)
      | _ \<Rightarrow> False)"

definition relation_record_ok :: "relation_dict \<Rightarrow> bool" where
  "relation_record_ok r = (case CodeRelation_init r of Inr relation \<Rightarrow> True | Inl e \<Rightarrow> False)"

definition well_formed :: "snapshot \<Rightarrow> bool" where
  "well_formed data =
     (case (snap_nodes data, snap_relations data) of
        (Some items, Some rels) \<Rightarrow>
          list_all (\<lambda>(node_id, nd). node_record_ok nd) items \<and> list_all relation_record_ok rels
      | _ \<Rightarrow> False)"

text \<open>The part of a document that comes before its first record or key that does not load.\<close>

definition loadable_prefix :: "snapshot \<Rightarrow> snapshot" where
  "loadable_prefix data =
     (case snap_nodes data of
        None \<Rightarrow> \<lparr>snap_nodes = Some [], snap_relations = Some []\<rparr>
      | Some items \<Rightarrow>
          if list_all (\<lambda>(node_id, nd). node_record_ok nd) items
          then \<lparr>snap_nodes = Some items,
                snap_relations = Some (case snap_relations data of
                                         None \<Rightarrow> []
                                       | Some rels \<Rightarrow> takeWhile relation_record_ok rels)\<rparr>
          else \<lparr>snap_nodes = Some (takeWhile (\<lambda>(node_id, nd). node_record_ok nd) items),
                snap_relations = Some []\<rparr>)"

subsection \<open>Example documents\<close>

definition record_a :: node_data where
  "record_a =
     \<lparr>nd_metadata = Some \<lparr>md_id = Some ''com.example.A'', md_file_path = Some ''A.java'',
         md_node_type = Some ''class'', md_name = Some ''A'', md_code = Some ''class A {}'',
         md_start_line = Some 1, md_end_line = Some 1, md_embedding = Some (PyList [1, 0])\<rparr>,
      nd_embedding = Some (PyList [1, 0])\<rparr>"

definition doc_missing_metadata :: snapshot where
  "doc_missing_metadata =
     \<lparr>snap_nodes = Some [(''com.example.A'', record_a),
                         (''com.example.B'', \<lparr>nd_metadata = None, nd_embedding = Some PyNone\<rparr>)],
      snap_relations = Some []\<rparr>"

definition doc_missing_relations :: snapshot where
  "doc_missing_relations =
     \<lparr>snap_nodes = Some [(''com.example.A'', record_a)], snap_relations = None\<rparr>"

subsection \<open>Walks and distances\<close>

text \<open>
  \<open>hops E k s\<close> lists the ends of the walks of exactly \<open>k\<close> edges of \<open>E\<close> that start at
  \<open>s\<close>; the distance from \<open>s\<close> to \<open>v\<close> is the least such \<open>k\<close> that reaches \<open>v\<close>.
\<close>

fun hops :: "(string \<times> string) list \<Rightarrow> nat \<Rightarrow> string \<Rightarrow> string list" where
  "hops E 0 s = [s]"
| "hops E (Suc k) s = concat (map (adjacent E) (hops E k s))"

definition shortest_distance :: "(string \<times> string) list \<Rightarrow> string \<Rightarrow> string \<Rightarrow> nat \<Rightarrow> bool" where
  "shortest_distance E s v n =
     (v \<in> set (hops E n s) \<and> list_all (\<lambda>k. v \<notin> set (hops E k s)) [0..<n])"

subsection \<open>The invariant of the traversal loop\<close>

definition queue_ok :: "(string \<times> string) list \<Rightarrow> string \<Rightarrow> (string \<times> int) list \<Rightarrow> bool" where
  "queue_ok E s q \<longleftrightarrow>
     sorted (map snd q) \<and>
     (\<forall>c dp. (c, dp) \<in> set q \<longrightarrow>
        0 \<le> dp \<and> dp \<le> snd (hd q) + 1 \<and> c \<in> set (hops E (nat dp) s))"

definition found_ok ::
  "(string \<times> string) list \<Rightarrow> string \<Rightarrow> int \<Rightarrow> string set \<Rightarrow> string set \<Rightarrow> bool" where
  "found_ok E s m V F \<longleftrightarrow>
     (\<forall>w \<in> F. \<exists>k\<ge>1. int k \<le> m \<and> w \<in> set (hops E k s)) \<and>
     (\<forall>u \<in> V. set (adjacent E u) \<subseteq> F)"

definition frontier_ok :: "(string \<times> string) list \<Rightarrow> (string \<times> int) list \<Rightarrow> string set \<Rightarrow> bool" where
  "frontier_ok E q V \<longleftrightarrow> (\<forall>u \<in> V. \<forall>n \<in> set (adjacent E u). n \<in> V \<or> n \<in> fst ` set q)"

definition cover_ok ::
  "(string \<times> string) list \<Rightarrow> string \<Rightarrow> int \<Rightarrow> (string \<times> int) list \<Rightarrow> string set \<Rightarrow> bool" where
  "cover_ok E s m q V \<longleftrightarrow>
     (\<forall>v D. v \<in> set (hops E D s) \<and> int D < m \<longrightarrow>
        v \<in> V \<or> (\<exists>c dp j. (c, dp) \<in> set q \<and> c \<notin> V \<and> v \<in> set (hops E j c) \<and> dp + int j \<le> int D))"

definition traverse_inv ::
  "(string \<times> string) list \<Rightarrow> string \<Rightarrow> int \<Rightarrow> (string \<times> int) list \<Rightarrow> string set \<Rightarrow> string set
     \<Rightarrow> bool" where
  "traverse_inv E s m q V F \<longleftrightarrow>
     queue_ok E s q \<and> found_ok E s m V F \<and>
     ((q \<noteq> [] \<and> snd (hd q) < m) \<longrightarrow> frontier_ok E q V) \<and>
     cover_ok E s m q V"

subsection \<open>A cyclic store\<close>

definition cycle_store :: GraphCodeBERTEmbedder where
  "cycle_store =
     add_code_relation \<lparr>source_id = ''C'', target_id = ''A'', relation_type = ''call'', confidence = 1\<rparr>
       (add_code_relation \<lparr>source_id = ''B'', target_id = ''C'', relation_type = ''call'', confidence = 1\<rparr>
          (add_code_relation \<lparr>source_id = ''A'', target_id = ''B'', relation_type = ''call'', confidence = 1\<rparr>
             GraphCodeBERTEmbedder_init))"

subsection \<open>Graphs as networkx keeps them\<close>

text \<open>Every endpoint of an edge is a node: what \<^verbatim>\<open>add_edge\<close> establishes.\<close>

definition graph_wf :: "DiGraph \<Rightarrow> bool" where
  "graph_wf G = list_all (\<lambda>((u, v), a). has_node G u \<and> has_node G v) (nx_adj G)"

subsection \<open>A batch in the index\<close>

definition faiss_batch :: FAISSInterface where
  "faiss_batch = snd (faiss_add_embeddings [node_a, node_b] (FAISSInterface_init 2))"

subsection \<open>What an import stores\<close>

text \<open>
  What a record that loads puts into the store, and the records of a document that come
  before its first missing key or record that does not load.
\<close>

definition loaded_node :: "node_data \<Rightarrow> CodeNode option" where
  "loaded_node nd =
     (case (nd_metadata nd, nd_embedding nd) of
        (Some m, Some raw) \<Rightarrow>
          (case (truthy raw, CodeNode_init m) of
             (Inr t, Inr node0) \<Rightarrow>
               Some (node0\<lparr>embedding := if t then Some (np_array raw) else None\<rparr>)
           | _ \<Rightarrow> None)
      | _ \<Rightarrow> None)"

definition loaded_relation :: "relation_dict \<Rightarrow> CodeRelation option" where
  "loaded_relation r = (case CodeRelation_init r of Inr relation \<Rightarrow> Some relation | Inl e \<Rightarrow> None)"

definition stored_nodes :: "snapshot \<Rightarrow> (string \<times> CodeNode) list" where
  "stored_nodes data =
     (case snap_nodes data of
        None \<Rightarrow> []
      | Some items \<Rightarrow>
          map (\<lambda>(node_id, nd). (node_id, the (loaded_node nd)))
            (takeWhile (\<lambda>(node_id, nd). node_record_ok nd) items))"

definition stored_relations :: "snapshot \<Rightarrow> CodeRelation list" where
  "stored_relations data =
     (case (snap_nodes data, snap_relations data) of
        (Some items, Some rels) \<Rightarrow>
          if list_all (\<lambda>(node_id, nd). node_record_ok nd) items
          then map (\<lambda>r. the (loaded_relation r)) (takeWhile relation_record_ok rels)
          else []
      | _ \<Rightarrow> [])"

definition doc_bad_relation :: snapshot where
  "doc_bad_relation =
     \<lparr>snap_nodes = Some [(''com.example.A'', record_a)],
      snap_relations = Some [asdict_relation rel_call,
        \<lparr>rd_source_id = Some ''A'', rd_target_id = Some ''C'',
         rd_relation_type = Some ''call'', rd_confidence = None\<rparr>]\<rparr>"

section \<open>Properties of the FAISS backend\<close>

lemma register_nodes_next_index:
  "next_index (register_nodes nodes s) = next_index s + int (length nodes)"
  by (induction nodes arbitrary: s) auto

lemma register_nodes_index:
  "index (register_nodes nodes s) = index s"
  by (induction nodes arbitrary: s) auto

lemma faiss_add_embeddings_monotone:
  "next_index s \<le> next_index (snd (faiss_add_embeddings nodes s)) \<and>
   prefix (xb (index s)) (xb (index (snd (faiss_add_embeddings nodes s))))"
  by (auto simp: faiss_add_embeddings_def Let_def register_nodes_next_index register_nodes_index
        IndexFlatIP_add_def split: sum.splits)

lemma faiss_delete_node_frame:
  "next_index (snd (faiss_delete_node node_id s)) = next_index s \<and>
   index (snd (faiss_delete_node node_id s)) = index s"
  by (auto simp: faiss_delete_node_def Let_def split: option.splits)

lemma faiss_update_node_frame:
  "next_index (faiss_update_node node s) = next_index s \<and>
   index (faiss_update_node node s) = index s"
  by (auto simp: faiss_update_node_def split: option.splits)

text \<open>Adding one node whose vector has the index's dimension: the new state, in full.\<close>

lemma faiss_add_one:
  assumes "embedding node = Some v" and "length v = d (index s)"
  shows "faiss_add_embeddings [node] s =
     (Inr (), s\<lparr>index := (index s)\<lparr>xb := xb (index s) @ [v]\<rparr>,
          node_metadata := AList.update (next_index s) node (node_metadata s),
          id_to_index := AList.update (id' node) (next_index s) (id_to_index s),
          index_to_id := AList.update (next_index s) (id' node) (index_to_id s),
          next_index := next_index s + 1\<rparr>)"
  using assms
  by (simp add: faiss_add_embeddings_def Let_def np_array_rows_def IndexFlatIP_add_def)

lemma faiss_search_depends:
  "index s' = index s \<Longrightarrow> index_to_id s' = index_to_id s \<Longrightarrow>
   faiss_search q k s' = faiss_search q k s"
  by (simp add: faiss_search_def split: sum.splits)

lemma faiss_with_b_eq:
  "faiss_with_b =
     \<lparr>dimension = 2, index = \<lparr>d = 2, xb = [[0, 1]]\<rparr>, node_metadata = [(0, node_b)],
      id_to_index = [(''com.example.B'', 0)], index_to_id = [(0, ''com.example.B'')],
      next_index = 1\<rparr>"
  by (simp add: faiss_with_b_def faiss_add_embeddings_def FAISSInterface_init_def
      IndexFlatIP_new_def node_b_def np_array_rows_def IndexFlatIP_add_def)

lemma faiss_with_b_a_eq:
  "snd (faiss_add_embeddings [node_a] faiss_with_b) =
     \<lparr>dimension = 2, index = \<lparr>d = 2, xb = [[0, 1], [1, 0]]\<rparr>,
      node_metadata = [(0, node_b), (1, node_a)],
      id_to_index = [(''com.example.B'', 0), (''com.example.A'', 1)],
      index_to_id = [(0, ''com.example.B''), (1, ''com.example.A'')], next_index = 2\<rparr>"
  apply (simp add: faiss_with_b_eq faiss_add_embeddings_def np_array_rows_def IndexFlatIP_add_def)
  apply (simp add: node_a_def)
  done

lemma faiss_with_b_a_search:
  "faiss_search [1, 0] 2 (snd (faiss_add_embeddings [node_a] faiss_with_b)) =
     Inr [(''com.example.A'', 1), (''com.example.B'', 0)]"
  by (simp add: faiss_with_b_a_eq faiss_search_def IndexFlatIP_search_def np_dot_def
      enumerate_eq_zip Let_def)

lemma faiss_add_wrong_dimension:
  assumes "embedding node = Some v" and "length v \<noteq> d (index s)"
  shows "faiss_add_embeddings [node] s = (Inl AssertionError, s)"
  using assms
  by (simp add: faiss_add_embeddings_def Let_def np_array_rows_def IndexFlatIP_add_def)

text \<open>What \<open>delete_node\<close> does to a state, in full.\<close>

lemma faiss_delete_stored:
  assumes "map_of (id_to_index t) node_id = Some idx"
    and "map_of (node_metadata t) idx \<noteq> None" and "map_of (index_to_id t) idx \<noteq> None"
  shows "faiss_delete_node node_id t =
     (Inr (), t\<lparr>node_metadata := AList.delete idx (node_metadata t),
                id_to_index := AList.delete node_id (id_to_index t),
                index_to_id := AList.delete idx (index_to_id t)\<rparr>)"
  using assms by (simp add: faiss_delete_node_def Let_def)

lemma faiss_delete_absent:
  "map_of (id_to_index t) node_id = None \<Longrightarrow> faiss_delete_node node_id t = (Inr (), t)"
  by (simp add: faiss_delete_node_def)

text \<open>
  C9 (amended). On the FAISS backend, for a node whose vector has the index's dimension,
  \<open>add_embeddings [node]\<close> followed by \<open>delete_node\<close> of its id leaves \<open>next_index\<close> and
  the number of stored vectors each one higher than before: the addition appends the
  vector, and the deletion succeeds, deletes the entries of the id's slot from the three
  metadata tables, keeps every other entry and leaves the index as the addition made it.
  For a vector of another length the addition raises AssertionError and changes nothing.
  No operation lowers the slot count: for every state and argument, \<open>add_embeddings\<close> only
  appends rows and never lowers \<open>next_index\<close> (also when it raises), \<open>delete_node\<close>
  changes nothing but the three tables, from which it deletes the entries of the id's
  slot only, and \<open>update_node\<close> leaves the index and \<open>next_index\<close> as they were;
  \<open>search\<close>, \<open>get_node\<close> and \<open>get_all_nodes\<close> do not change the state at all.
\<close>

theorem faiss_slot_growth:
  assumes "embedding node = Some v"
  shows "(length v = d (index s) \<longrightarrow>
           (case faiss_add_embeddings [node] s of (r1, s1) \<Rightarrow>
              r1 = Inr () \<and>
              next_index s1 = next_index s + 1 \<and>
              ntotal (index s1) = ntotal (index s) + 1 \<and>
              xb (index s1) = xb (index s) @ [v] \<and>
              (case faiss_delete_node (id' node) s1 of (r2, s2) \<Rightarrow>
                 r2 = Inr () \<and>
                 s2 = s1\<lparr>node_metadata := AList.delete (next_index s) (node_metadata s1),
                          id_to_index := AList.delete (id' node) (id_to_index s1),
                          index_to_id := AList.delete (next_index s) (index_to_id s1)\<rparr> \<and>
                 next_index s2 = next_index s + 1 \<and>
                 ntotal (index s2) = ntotal (index s) + 1 \<and>
                 index s2 = index s1 \<and>
                 map_of (id_to_index s2) (id' node) = None \<and>
                 map_of (node_metadata s2) (next_index s) = None \<and>
                 map_of (index_to_id s2) (next_index s) = None))) \<and>
         (length v \<noteq> d (index s) \<longrightarrow>
            faiss_add_embeddings [node] s = (Inl AssertionError, s)) \<and>
         (\<forall>nodes t. next_index t \<le> next_index (snd (faiss_add_embeddings nodes t)) \<and>
             prefix (xb (index t)) (xb (index (snd (faiss_add_embeddings nodes t))))) \<and>
         (\<forall>node_id t. next_index (snd (faiss_delete_node node_id t)) = next_index t \<and>
             index (snd (faiss_delete_node node_id t)) = index t) \<and>
         (\<forall>node_id t idx.
             map_of (id_to_index t) node_id = Some idx \<and> map_of (node_metadata t) idx \<noteq> None \<and>
             map_of (index_to_id t) idx \<noteq> None \<longrightarrow>
             faiss_delete_node node_id t =
               (Inr (), t\<lparr>node_metadata := AList.delete idx (node_metadata t),
                          id_to_index := AList.delete node_id (id_to_index t),
                          index_to_id := AList.delete idx (index_to_id t)\<rparr>)) \<and>
         (\<forall>node_id t. map_of (id_to_index t) node_id = None \<longrightarrow>
             faiss_delete_node node_id t = (Inr (), t)) \<and>
         (\<forall>n t. next_index (faiss_update_node n t) = next_index t \<and>
             index (faiss_update_node n t) = index t)"
proof -
  have cycle: "(case faiss_add_embeddings [node] s of (r1, s1) \<Rightarrow>
              r1 = Inr () \<and>
              next_index s1 = next_index s + 1 \<and>
              ntotal (index s1) = ntotal (index s) + 1 \<and>
              xb (index s1) = xb (index s) @ [v] \<and>
              (case faiss_delete_node (id' node) s1 of (r2, s2) \<Rightarrow>
                 r2 = Inr () \<and>
                 s2 = s1\<lparr>node_metadata := AList.delete (next_index s) (node_metadata s1),
                          id_to_index := AList.delete (id' node) (id_to_index s1),
                          index_to_id := AList.delete (next_index s) (index_to_id s1)\<rparr> \<and>
                 next_index s2 = next_index s + 1 \<and>
                 ntotal (index s2) = ntotal (index s) + 1 \<and>
                 index s2 = index s1 \<and>
                 map_of (id_to_index s2) (id' node) = None \<and>
                 map_of (node_metadata s2) (next_index s) = None \<and>
                 map_of (index_to_id s2) (next_index s) = None))"
    if len: "length v = d (index s)"
  proof -
    let ?s1 = "snd (faiss_add_embeddings [node] s)"
    note one = faiss_add_one [OF assms len]
    have add: "faiss_add_embeddings [node] s = (Inr (), ?s1)"
      using one by simp
    have s1: "next_index ?s1 = next_index s + 1" "ntotal (index ?s1) = ntotal (index s) + 1"
      "xb (index ?s1) = xb (index s) @ [v]"
      "map_of (id_to_index ?s1) (id' node) = Some (next_index s)"
      "map_of (node_metadata ?s1) (next_index s) = Some node"
      "map_of (index_to_id ?s1) (next_index s) = Some (id' node)"
      using one by (simp_all add: ntotal_def update_Some_unfold)
    have del: "faiss_delete_node (id' node) ?s1 =
        (Inr (), ?s1\<lparr>node_metadata := AList.delete (next_index s) (node_metadata ?s1),
                    id_to_index := AList.delete (id' node) (id_to_index ?s1),
                    index_to_id := AList.delete (next_index s) (index_to_id ?s1)\<rparr>)"
      by (rule faiss_delete_stored) (simp_all add: s1)
    show ?thesis
      apply (subst add)
      apply (simp only: prod.case)
      apply (subst del)
      apply (simp add: s1 delete_conv)
      done
  qed
  show ?thesis
    using cycle faiss_add_wrong_dimension [OF assms] faiss_add_embeddings_monotone
      faiss_delete_node_frame faiss_update_node_frame faiss_delete_stored faiss_delete_absent
    by blast
qed

theorem faiss_slot_growth_witness:
  "embedding node_a = Some [1, 0] \<and> length [1, 0 :: real] = d (index faiss_with_b) \<and>
   faiss_add_embeddings [node_a] faiss_with_b =
     (Inr (), \<lparr>dimension = 2, index = \<lparr>d = 2, xb = [[0, 1], [1, 0]]\<rparr>,
        node_metadata = [(0, node_b), (1, node_a)],
        id_to_index = [(''com.example.B'', 0), (''com.example.A'', 1)],
        index_to_id = [(0, ''com.example.B''), (1, ''com.example.A'')], next_index = 2\<rparr>) \<and>
   faiss_delete_node (id' node_a) (snd (faiss_add_embeddings [node_a] faiss_with_b)) =
     (Inr (), \<lparr>dimension = 2, index = \<lparr>d = 2, xb = [[0, 1], [1, 0]]\<rparr>,
        node_metadata = [(0, node_b)],
        id_to_index = [(''com.example.B'', 0)],
        index_to_id = [(0, ''com.example.B'')], next_index = 2\<rparr>) \<and>
   next_index faiss_with_b = 1 \<and> ntotal (index faiss_with_b) = 1"
proof -
  have h1: "embedding node_a = Some [1, 0]" by (simp add: node_a_def)
  have h2: "length [1, 0 :: real] = d (index faiss_with_b)"
    by (simp add: faiss_with_b_eq)
  have i: "id' node_a = ''com.example.A''" by (simp add: node_a_def)
  have n: "next_index faiss_with_b = 1" "ntotal (index faiss_with_b) = 1"
    by (simp_all add: faiss_with_b_eq ntotal_def)
  from faiss_slot_growth [OF h1, of faiss_with_b] h2
  have "case faiss_add_embeddings [node_a] faiss_with_b of (r1, s1) \<Rightarrow>
          r1 = Inr () \<and>
          (case faiss_delete_node (id' node_a) s1 of (r2, s2) \<Rightarrow>
             r2 = Inr () \<and>
             s2 = s1\<lparr>node_metadata := AList.delete (next_index faiss_with_b) (node_metadata s1),
                      id_to_index := AList.delete (id' node_a) (id_to_index s1),
                      index_to_id := AList.delete (next_index faiss_with_b) (index_to_id s1)\<rparr>)"
    by (simp add: case_prod_beta)
  then have "fst (faiss_add_embeddings [node_a] faiss_with_b) = Inr () \<and>
      faiss_delete_node (id' node_a) (snd (faiss_add_embeddings [node_a] faiss_with_b)) =
      (Inr (), (snd (faiss_add_embeddings [node_a] faiss_with_b))
         \<lparr>node_metadata := AList.delete 1
             (node_metadata (snd (faiss_add_embeddings [node_a] faiss_with_b))),
          id_to_index := AList.delete ''com.example.A''
             (id_to_index (snd (faiss_add_embeddings [node_a] faiss_with_b))),
          index_to_id := AList.delete 1
             (index_to_id (snd (faiss_add_embeddings [node_a] faiss_with_b)))\<rparr>)"
    by (simp add: case_prod_beta n i prod_eq_iff)
  then show ?thesis
    using h1 h2 n by (simp add: faiss_with_b_a_eq prod_eq_iff)
qed

text \<open>
  C9 as the specification states it fails for a node whose vector has one component on an
  index of dimension 2: the addition raises, and after the cycle \<open>next_index\<close> and the
  number of stored vectors are what they were.
\<close>

theorem faiss_slot_growth_counterexample:
  "faiss_add_embeddings [node_a\<lparr>embedding := Some [1]\<rparr>] (FAISSInterface_init 2)
     = (Inl AssertionError, FAISSInterface_init 2) \<and>
   next_index (snd (faiss_delete_node ''com.example.A''
      (snd (faiss_add_embeddings [node_a\<lparr>embedding := Some [1]\<rparr>] (FAISSInterface_init 2)))))
     = next_index (FAISSInterface_init 2) \<and>
   ntotal (index (snd (faiss_delete_node ''com.example.A''
      (snd (faiss_add_embeddings [node_a\<lparr>embedding := Some [1]\<rparr>] (FAISSInterface_init 2))))))
     = ntotal (index (FAISSInterface_init 2))"
proof -
  have e: "embedding (node_a\<lparr>embedding := Some [1]\<rparr>) = Some [1]" by simp
  have l: "length [1 :: real] \<noteq> d (index (FAISSInterface_init 2))"
    by (simp add: FAISSInterface_init_def IndexFlatIP_new_def)
  note add = faiss_add_wrong_dimension [OF e l]
  show ?thesis
    unfolding add by (simp add: faiss_delete_node_frame)
qed

lemma faiss_batch_eq:
  "faiss_batch =
     \<lparr>dimension = 2, index = \<lparr>d = 2, xb = [[1, 0], [0, 1]]\<rparr>,
      node_metadata = [(0, node_a), (1, node_b)],
      id_to_index = [(''com.example.A'', 0), (''com.example.B'', 1)],
      index_to_id = [(0, ''com.example.A''), (1, ''com.example.B'')], next_index = 2\<rparr>"
  apply (simp add: faiss_batch_def faiss_add_embeddings_def FAISSInterface_init_def
      IndexFlatIP_new_def np_array_rows_def IndexFlatIP_add_def)
  apply (simp add: node_a_def node_b_def)
  done

lemma faiss_batch_search:
  "faiss_search [1, 0] 2 faiss_batch = Inr [(''com.example.A'', 1), (''com.example.B'', 0)]"
  by (simp add: faiss_batch_eq faiss_search_def IndexFlatIP_search_def np_dot_def
      enumerate_eq_zip Let_def)

lemma faiss_update_absent:
  "map_of (id_to_index s) (id' node) = None \<Longrightarrow> faiss_update_node node s = s"
  by (simp add: faiss_update_node_def)

text \<open>
  C10. On the FAISS backend, for a node whose id is stored (in slot \<open>idx\<close>, wherever and
  however it was added), \<open>update_node\<close> replaces the metadata record of that slot and
  changes nothing else: \<open>get_node\<close> of the id then returns the new node, its new embedding
  included; every other metadata record, and what \<open>get_node\<close> returns for every id of
  another slot, is as before; the index, its stored vectors and the slot tables are
  untouched, so every search returns what it returned before the update: the id is still
  ranked by the vector that \<open>add_embeddings\<close> stored.
\<close>

theorem faiss_update_node_metadata_only:
  assumes "map_of (id_to_index s) (id' new_node) = Some idx"
  shows "faiss_update_node new_node s =
           s\<lparr>node_metadata := AList.update idx new_node (node_metadata s)\<rparr> \<and>
         faiss_get_node (id' new_node) (faiss_update_node new_node s) = Some new_node \<and>
         map_of (node_metadata (faiss_update_node new_node s)) =
           (map_of (node_metadata s))(idx \<mapsto> new_node) \<and>
         (\<forall>other. map_of (id_to_index s) other \<noteq> Some idx \<longrightarrow>
            faiss_get_node other (faiss_update_node new_node s) = faiss_get_node other s) \<and>
         index (faiss_update_node new_node s) = index s \<and>
         xb (index (faiss_update_node new_node s)) = xb (index s) \<and>
         id_to_index (faiss_update_node new_node s) = id_to_index s \<and>
         index_to_id (faiss_update_node new_node s) = index_to_id s \<and>
         next_index (faiss_update_node new_node s) = next_index s \<and>
         (\<forall>q k. faiss_search q k (faiss_update_node new_node s) = faiss_search q k s)"
proof -
  let ?s' = "faiss_update_node new_node s"
  have upd: "?s' = s\<lparr>node_metadata := AList.update idx new_node (node_metadata s)\<rparr>"
    using assms by (simp add: faiss_update_node_def)
  have get: "faiss_get_node (id' new_node) ?s' = Some new_node"
    using assms by (simp add: upd faiss_get_node_def update_Some_unfold)
  have meta: "map_of (node_metadata ?s') = (map_of (node_metadata s))(idx \<mapsto> new_node)"
    by (simp add: upd update_conv')
  have others: "faiss_get_node other ?s' = faiss_get_node other s"
    if "map_of (id_to_index s) other \<noteq> Some idx" for other
    using that by (auto simp: upd faiss_get_node_def update_conv' split: option.splits)
  have frame: "index ?s' = index s" "id_to_index ?s' = id_to_index s"
    "index_to_id ?s' = index_to_id s" "next_index ?s' = next_index s"
    by (simp_all add: upd)
  have search: "faiss_search q k ?s' = faiss_search q k s" for q k
    using frame by (rule_tac faiss_search_depends) simp_all
  from upd get meta others frame search show ?thesis by simp
qed

theorem faiss_update_node_metadata_only_witness:
  "map_of (id_to_index faiss_batch) (id' (node_a\<lparr>embedding := Some [0, 5]\<rparr>)) = Some 0 \<and>
   faiss_update_node (node_a\<lparr>embedding := Some [0, 5]\<rparr>) faiss_batch =
     \<lparr>dimension = 2, index = \<lparr>d = 2, xb = [[1, 0], [0, 1]]\<rparr>,
      node_metadata = [(0, node_a\<lparr>embedding := Some [0, 5]\<rparr>), (1, node_b)],
      id_to_index = [(''com.example.A'', 0), (''com.example.B'', 1)],
      index_to_id = [(0, ''com.example.A''), (1, ''com.example.B'')], next_index = 2\<rparr> \<and>
   faiss_search [1, 0] 2 (faiss_update_node (node_a\<lparr>embedding := Some [0, 5]\<rparr>) faiss_batch)
     = Inr [(''com.example.A'', 1), (''com.example.B'', 0)] \<and>
   faiss_get_node ''com.example.A''
     (faiss_update_node (node_a\<lparr>embedding := Some [0, 5]\<rparr>) faiss_batch)
     = Some (node_a\<lparr>embedding := Some [0, 5]\<rparr>) \<and>
   faiss_get_node ''com.example.B''
     (faiss_update_node (node_a\<lparr>embedding := Some [0, 5]\<rparr>) faiss_batch)
     = Some node_b"
proof -
  have i: "id' (node_a\<lparr>embedding := Some [0, 5]\<rparr>) = ''com.example.A''"
    by (simp add: node_a_def)
  have h: "map_of (id_to_index faiss_batch) (id' (node_a\<lparr>embedding := Some [0, 5]\<rparr>)) = Some 0"
    by (simp add: i faiss_batch_eq)
  have b: "map_of (id_to_index faiss_batch) ''com.example.B'' \<noteq> Some 0"
    by (simp add: faiss_batch_eq)
  have gb: "faiss_get_node ''com.example.B'' faiss_batch = Some node_b"
    by (simp add: faiss_batch_eq faiss_get_node_def)
  have st: "faiss_batch\<lparr>node_metadata :=
        AList.update 0 (node_a\<lparr>embedding := Some [0, 5]\<rparr>) (node_metadata faiss_batch)\<rparr> =
     \<lparr>dimension = 2, index = \<lparr>d = 2, xb = [[1, 0], [0, 1]]\<rparr>,
      node_metadata = [(0, node_a\<lparr>embedding := Some [0, 5]\<rparr>), (1, node_b)],
      id_to_index = [(''com.example.A'', 0), (''com.example.B'', 1)],
      index_to_id = [(0, ''com.example.A''), (1, ''com.example.B'')], next_index = 2\<rparr>"
    by (simp add: faiss_batch_eq)
  note t = faiss_update_node_metadata_only [OF h]
  let ?new = "node_a\<lparr>embedding := Some [0, 5]\<rparr>"
  from t have u: "faiss_update_node ?new faiss_batch =
      faiss_batch\<lparr>node_metadata := AList.update 0 ?new (node_metadata faiss_batch)\<rparr>"
    by blast
  from t have "faiss_get_node (id' ?new) (faiss_update_node ?new faiss_batch) = Some ?new"
    by blast
  then have ga: "faiss_get_node ''com.example.A'' (faiss_update_node ?new faiss_batch) = Some ?new"
    unfolding i .
  from t b have gb': "faiss_get_node ''com.example.B'' (faiss_update_node ?new faiss_batch)
      = faiss_get_node ''com.example.B'' faiss_batch"
    by blast
  from t have se: "faiss_search [1, 0] 2 (faiss_update_node ?new faiss_batch)
      = faiss_search [1, 0] 2 faiss_batch"
    by blast
  from h u [unfolded st] ga gb' [unfolded gb] se [unfolded faiss_batch_search]
  show ?thesis by blast
qed

text \<open>
  In particular, right after a node has been added: the row that the addition appended is
  still the node's old vector after the update, and the searches are those of before.
\<close>

lemma faiss_update_after_add:
  assumes "embedding old_node = Some v" and "length v = d (index s)"
    and "id' new_node = id' old_node"
  shows "(let s1 = snd (faiss_add_embeddings [old_node] s);
              s2 = faiss_update_node new_node s1
          in faiss_get_node (id' old_node) s2 = Some new_node \<and>
             xb (index s2) = xb (index s) @ [v] \<and>
             (\<forall>q k. faiss_search q k s2 = faiss_search q k s1))"
proof -
  let ?s1 = "snd (faiss_add_embeddings [old_node] s)"
  let ?s2 = "faiss_update_node new_node ?s1"
  have slot: "map_of (id_to_index ?s1) (id' new_node) = Some (next_index s)"
    using faiss_add_one [OF assms(1,2)] assms(3) by (simp add: update_Some_unfold)
  have upd: "?s2 = ?s1\<lparr>node_metadata := AList.update (next_index s) new_node (node_metadata ?s1)\<rparr>"
    using slot by (simp add: faiss_update_node_def)
  have get: "faiss_get_node (id' old_node) ?s2 = Some new_node"
    using slot assms(3) by (simp add: upd faiss_get_node_def update_Some_unfold)
  have rows1: "xb (index ?s1) = xb (index s) @ [v]"
    using faiss_add_one [OF assms(1,2)] by simp
  have same: "index ?s2 = index ?s1"
    by (simp add: upd)
  have rows: "xb (index ?s2) = xb (index s) @ [v]"
    by (simp only: same rows1)
  have search: "faiss_search q k ?s2 = faiss_search q k ?s1" for q k
    by (rule faiss_search_depends) (simp_all add: upd)
  show ?thesis
    unfolding Let_def using get rows search by simp
qed

section \<open>Properties of the embedder\<close>

lemma chain_graph:
  "call_graph chain_store =
     \<lparr>nx_node = [(''A'', None), (''B'', None), (''C'', None), (''D'', None)],
      nx_adj = [((''A'', ''B''), (''call'', 1)), ((''B'', ''C''), (''call'', 1)),
                ((''C'', ''D''), (''call'', 1))]\<rparr>"
  by (simp add: chain_store_def add_code_relation_def GraphCodeBERTEmbedder_init_def DiGraph_new_def
      add_edge_def touch_node_def has_node_def Let_def)

text \<open>
  C5. On the chain \<open>A \<rightarrow> B \<rightarrow> C \<rightarrow> D\<close>, the downstream dependencies of \<open>A\<close> are
  \<open>{B, C}\<close> at depth 2 and \<open>{B}\<close> at depth 1; and at depth 0 both queries return the empty
  result for every graph and every id.
\<close>

theorem downstream_chain_and_depth_zero:
  "get_downstream_dependencies chain_store ''A'' 2 = {''B'', ''C''} \<and>
   get_downstream_dependencies chain_store ''A'' 1 = {''B''} \<and>
   (\<forall>st node_id. get_downstream_dependencies st node_id 0 = {} \<and>
                  get_upstream_dependencies st node_id 0 = {})"
proof -
  have a: "get_downstream_dependencies chain_store ''A'' 2 = {''B'', ''C''}"
    by (auto simp: get_downstream_dependencies_def chain_graph has_node_def successor_edges_def
        adjacent_def)
  have b: "get_downstream_dependencies chain_store ''A'' 1 = {''B''}"
    by (auto simp: get_downstream_dependencies_def chain_graph has_node_def successor_edges_def
        adjacent_def)
  have c: "get_downstream_dependencies st node_id 0 = {} \<and>
           get_upstream_dependencies st node_id 0 = {}" for st node_id
    by (simp add: get_downstream_dependencies_def get_upstream_dependencies_def)
  from a b c show ?thesis by blast
qed

lemma absent_dependencies:
  "\<not> has_node (call_graph st) node_id \<Longrightarrow>
   get_upstream_dependencies st node_id m = {} \<and> get_downstream_dependencies st node_id m = {}"
  by (simp add: get_upstream_dependencies_def get_downstream_dependencies_def)

lemma absent_call_path:
  "\<not> has_node (call_graph st) source \<or> \<not> has_node (call_graph st) target \<Longrightarrow>
   get_call_path path_of st source target = Inl NodeNotFound"
  by (auto simp: get_call_path_def shortest_path_def)

lemma absent_analyze_impact:
  "\<not> has_node (call_graph st) node_id \<Longrightarrow> analyze_impact st node_id = Inl NetworkXError"
  by (simp add: analyze_impact_def predecessors_def Let_def)

text \<open>
  C3. On the chain graph, for the id \<open>X\<close> that is not in the graph: the two dependency
  queries return the empty result, but \<open>get_call_path\<close> with \<open>X\<close> as either endpoint
  raises NodeNotFound (only NetworkXNoPath is caught) and \<open>analyze_impact\<close> raises
  NetworkXError (it asks the graph for the predecessors of \<open>X\<close> without a guard).
\<close>

theorem absent_id_raises:
  "\<not> has_node (call_graph chain_store) ''X'' \<and>
   get_upstream_dependencies chain_store ''X'' 3 = {} \<and>
   get_downstream_dependencies chain_store ''X'' 3 = {} \<and>
   (\<forall>path_of. get_call_path path_of chain_store ''A'' ''X'' = Inl NodeNotFound) \<and>
   (\<forall>path_of. get_call_path path_of chain_store ''X'' ''A'' = Inl NodeNotFound) \<and>
   analyze_impact chain_store ''X'' = Inl NetworkXError"
proof -
  have x: "\<not> has_node (call_graph chain_store) ''X''"
    by (simp add: chain_graph has_node_def)
  show ?thesis
    using x absent_call_path [of chain_store "''X''"] absent_call_path [of chain_store _ "''X''"]
      absent_analyze_impact [OF x]
    by (simp add: get_upstream_dependencies_def get_downstream_dependencies_def)
qed

lemma length_alist_update:
  "length (AList.update k v al) = (if k \<in> fst ` set al then length al else Suc (length al))"
  by (induction al) (auto simp: image_iff)

lemma add_edge_again:
  "number_of_edges (add_edge u v a2 (add_edge u v a1 G)) = number_of_edges (add_edge u v a1 G) \<and>
   map_of (nx_adj (add_edge u v a2 (add_edge u v a1 G))) (u, v) = Some a2"
  by (simp add: add_edge_def number_of_edges_def touch_node_def Let_def length_alist_update
      update_Some_unfold dom_update)

text \<open>
  C7 (amended). After two relations with the same source and target and different types
  have been added, the relation list holds both, in order, and \<open>total_relations\<close> counts
  both; the call graph, which has one edge for an ordered pair, gets no further edge from
  the second relation, so \<open>total_edges\<close> is what it was after the first, and the edge
  carries the type and confidence of the second relation.
\<close>

theorem parallel_relations_one_edge:
  assumes "source_id r2 = source_id r1" and "target_id r2 = target_id r1"
    and "relation_type r2 \<noteq> relation_type r1"
  shows "(let st1 = add_code_relation r1 st; st2 = add_code_relation r2 st1
          in code_relations st2 = code_relations st @ [r1, r2] \<and>
             total_relations (get_statistics st2) = total_relations (get_statistics st) + 2 \<and>
             total_edges (get_statistics st2) = total_edges (get_statistics st1) \<and>
             map_of (nx_adj (call_graph st2)) (source_id r1, target_id r1)
               = Some (relation_type r2, confidence r2))"
  using assms add_edge_again [of "source_id r1" "target_id r1"]
  by (simp add: Let_def add_code_relation_def get_statistics_def)

theorem parallel_relations_one_edge_witness:
  "source_id rel_reference = source_id rel_call \<and> target_id rel_reference = target_id rel_call \<and>
   relation_type rel_reference \<noteq> relation_type rel_call \<and>
   total_relations (get_statistics
     (add_code_relation rel_reference (add_code_relation rel_call GraphCodeBERTEmbedder_init))) = 2 \<and>
   total_edges (get_statistics
     (add_code_relation rel_reference (add_code_relation rel_call GraphCodeBERTEmbedder_init))) = 1"
proof -
  have h1: "source_id rel_reference = source_id rel_call"
    by (simp add: rel_reference_def rel_call_def)
  have h2: "target_id rel_reference = target_id rel_call"
    by (simp add: rel_reference_def rel_call_def)
  have h3: "relation_type rel_reference \<noteq> relation_type rel_call"
    by (simp add: rel_reference_def rel_call_def)
  have one: "total_edges (get_statistics (add_code_relation rel_call GraphCodeBERTEmbedder_init)) = 1"
    by (simp add: get_statistics_def add_code_relation_def GraphCodeBERTEmbedder_init_def
        DiGraph_new_def add_edge_def touch_node_def has_node_def number_of_edges_def Let_def)
  have zero: "total_relations (get_statistics GraphCodeBERTEmbedder_init) = 0"
    by (simp add: get_statistics_def GraphCodeBERTEmbedder_init_def)
  show ?thesis
    using parallel_relations_one_edge [OF h1 h2 h3, of GraphCodeBERTEmbedder_init] h1 h2 h3 one zero
    by (simp add: Let_def)
qed

text \<open>
  C7 as the specification states it (both relations are distinct edges, and the edge
  count reflects both)
  fails from the empty store: \<open>total_edges\<close> is 1 and the only edge is of the second type.
\<close>

theorem parallel_relations_counterexample:
  "total_edges (get_statistics
     (add_code_relation rel_reference (add_code_relation rel_call GraphCodeBERTEmbedder_init))) = 1 \<and>
   nx_adj (call_graph
     (add_code_relation rel_reference (add_code_relation rel_call GraphCodeBERTEmbedder_init)))
     = [((''A'', ''B''), (''reference'', 1))]"
  by (simp add: get_statistics_def add_code_relation_def GraphCodeBERTEmbedder_init_def
      DiGraph_new_def add_edge_def touch_node_def has_node_def number_of_edges_def Let_def
      rel_call_def rel_reference_def)

section \<open>Properties of the search\<close>

lemma store_a_eq:
  "store_a = \<lparr>code_nodes = [(''com.example.A'', node_a)], code_relations = [],
              call_graph = \<lparr>nx_node = [(''com.example.A'', Some node_a)], nx_adj = []\<rparr>\<rparr>"
  by (simp add: store_a_def add_code_node_def encode_unit_def node_a_def
      GraphCodeBERTEmbedder_init_def DiGraph_new_def add_node_def Let_def)

lemma store_a_similar:
  "get_similar_nodes encode_unit store_a ''class A'' 10 = Inr [(''com.example.A'', 1)]"
  by (simp add: get_similar_nodes_def encode_unit_def store_a_eq node_a_def cosine_similarity_def
      np_dot_def np_linalg_norm_def slice_to_def Let_def)

text \<open>
  C2 (amended). When the local ranking succeeds, \<open>search_similar_code\<close> calls the backend's
  search and does not handle its failure: an error raised by the backend is the outcome of
  the whole search, and no result list is returned. When the backend's search returns,
  the outcome is the local ranking with the nodes' metadata, whatever the backend returned.
\<close>

theorem search_backend_failure_propagates:
  assumes "encode_code query_code = Inr query_embedding"
    and "get_similar_nodes encode_code st query_code top_k = Inr embedder_results"
  shows "(\<forall>e. vector_db_search query_embedding top_k = Inl e \<longrightarrow>
            search_similar_code encode_code vector_db_search st query_code top_k = Inl e) \<and>
         (\<forall>db_results. vector_db_search query_embedding top_k = Inr db_results \<longrightarrow>
            search_similar_code encode_code vector_db_search st query_code top_k
              = Inr (result_rows st embedder_results))"
  using assms by (simp add: search_similar_code_def)

theorem search_backend_failure_propagates_witness:
  "encode_unit ''class A'' = Inr [1, 0] \<and>
   get_similar_nodes encode_unit store_a ''class A'' 10 = Inr [(''com.example.A'', 1)] \<and>
   backend_down [1, 0] 10 = Inl BackendError \<and>
   search_similar_code encode_unit backend_down store_a ''class A'' 10 = Inl BackendError"
proof -
  have h1: "encode_unit ''class A'' = Inr [1, 0]" by (simp add: encode_unit_def)
  have h3: "backend_down [1, 0] 10 = Inl BackendError" by (simp add: backend_down_def)
  show ?thesis
    using search_backend_failure_propagates [OF h1 store_a_similar, of backend_down] h1 h3
      store_a_similar
    by simp
qed

text \<open>
  C2 as the specification states it fails on a populated system: with the backend's search raising, the search
  raises too, while with a backend that answers it returns the local ranking.
\<close>

theorem search_degrade_counterexample:
  "search_similar_code encode_unit backend_down store_a ''class A'' 10 = Inl BackendError \<and>
   search_similar_code encode_unit backend_up store_a ''class A'' 10 =
     Inr [\<lparr>r_node_id = ''com.example.A'', r_similarity = 1, r_node_type = ''class'',
           r_name = ''A'', r_file_path = ''A.java'', r_code = ''class A {}''\<rparr>]"
proof -
  have down: "search_similar_code encode_unit backend_down store_a ''class A'' 10 = Inl BackendError"
    unfolding search_similar_code_def store_a_similar
    by (simp add: encode_unit_def backend_down_def)
  have up: "search_similar_code encode_unit backend_up store_a ''class A'' 10 =
      Inr (result_rows store_a [(''com.example.A'', 1)])"
    unfolding search_similar_code_def store_a_similar
    by (simp add: encode_unit_def backend_up_def)
  have rows: "result_rows store_a [(''com.example.A'', 1)] =
      [\<lparr>r_node_id = ''com.example.A'', r_similarity = 1, r_node_type = ''class'',
        r_name = ''A'', r_file_path = ''A.java'', r_code = ''class A {}''\<rparr>]"
    by (simp add: result_rows_def store_a_eq node_a_def)
  from down up rows show ?thesis by simp
qed

section \<open>Properties of the snapshot codec\<close>

lemma load_nodes_step_ok:
  assumes "node_record_ok nd"
  shows "\<exists>node. \<forall>items st. load_nodes ((node_id, nd) # items) st =
           load_nodes items
             (st\<lparr>code_nodes := AList.update node_id node (code_nodes st),
                 call_graph := add_node node_id node (call_graph st)\<rparr>)"
proof -
  from assms obtain m raw t node0 where
    "nd_metadata nd = Some m" "nd_embedding nd = Some raw" "truthy raw = Inr t"
    "CodeNode_init m = Inr node0"
    by (auto simp: node_record_ok_def split: option.splits sum.splits)
  then show ?thesis by (auto simp: Let_def)
qed

lemma load_nodes_step_bad:
  assumes "\<not> node_record_ok nd"
  shows "\<exists>e. load_nodes ((node_id, nd) # items) st = (Inl e, st)"
  using assms
  by (auto simp: node_record_ok_def Let_def split: option.splits sum.splits)

lemma load_nodes_ok:
  "list_all (\<lambda>(node_id, nd). node_record_ok nd) items \<Longrightarrow> fst (load_nodes items st) = Inr ()"
proof (induction items arbitrary: st)
  case Nil
  show ?case by simp
next
  case (Cons item items)
  obtain node_id nd where item: "item = (node_id, nd)" by (cases item)
  from Cons.prems item have ok: "node_record_ok nd"
    and rest: "list_all (\<lambda>(node_id, nd). node_record_ok nd) items" by simp_all
  from load_nodes_step_ok [OF ok] obtain node where
    "load_nodes ((node_id, nd) # items) st =
       load_nodes items (st\<lparr>code_nodes := AList.update node_id node (code_nodes st),
                             call_graph := add_node node_id node (call_graph st)\<rparr>)"
    by blast
  with Cons.IH [OF rest] item show ?case by simp
qed

lemma load_nodes_fails:
  "\<not> list_all (\<lambda>(node_id, nd). node_record_ok nd) items \<Longrightarrow> isl (fst (load_nodes items st))"
proof (induction items arbitrary: st)
  case Nil
  then show ?case by simp
next
  case (Cons item items)
  obtain node_id nd where item: "item = (node_id, nd)" by (cases item)
  show ?case
  proof (cases "node_record_ok nd")
    case True
    with Cons.prems item have rest: "\<not> list_all (\<lambda>(node_id, nd). node_record_ok nd) items"
      by simp
    from load_nodes_step_ok [OF True] obtain node where
      "load_nodes ((node_id, nd) # items) st =
         load_nodes items (st\<lparr>code_nodes := AList.update node_id node (code_nodes st),
                               call_graph := add_node node_id node (call_graph st)\<rparr>)"
      by blast
    with Cons.IH [OF rest] item show ?thesis by (simp del: load_nodes.simps)
  next
    case False
    from load_nodes_step_bad [OF False] obtain e where
      "load_nodes ((node_id, nd) # items) st = (Inl e, st)" by blast
    with item show ?thesis by (simp del: load_nodes.simps)
  qed
qed

lemma load_nodes_prefix:
  "snd (load_nodes items st) =
   snd (load_nodes (takeWhile (\<lambda>(node_id, nd). node_record_ok nd) items) st)"
proof (induction items arbitrary: st)
  case Nil
  show ?case by simp
next
  case (Cons item items)
  obtain node_id nd where item: "item = (node_id, nd)" by (cases item)
  show ?case
  proof (cases "node_record_ok nd")
    case True
    from load_nodes_step_ok [OF True] obtain node where
      step: "\<And>xs. load_nodes ((node_id, nd) # xs) st =
         load_nodes xs (st\<lparr>code_nodes := AList.update node_id node (code_nodes st),
                            call_graph := add_node node_id node (call_graph st)\<rparr>)"
      by blast
    from True item Cons.IH show ?thesis by (simp add: step del: load_nodes.simps)
  next
    case False
    from load_nodes_step_bad [OF False] obtain e where
      "load_nodes ((node_id, nd) # items) st = (Inl e, st)" by blast
    with item False show ?thesis by (simp del: load_nodes.simps add: load_nodes.simps(1))
  qed
qed

lemma load_nodes_first_bad:
  "\<not> node_record_ok nd \<Longrightarrow> snd (load_nodes ((node_id, nd) # items) st) = st"
  using load_nodes_step_bad [of nd node_id items st] by auto

lemma load_relations_ok:
  "list_all relation_record_ok rels \<Longrightarrow> fst (load_relations rels st) = Inr ()"
  by (induction rels arbitrary: st) (auto simp: relation_record_ok_def split: sum.splits)

lemma load_relations_fails:
  "\<not> list_all relation_record_ok rels \<Longrightarrow> isl (fst (load_relations rels st))"
  by (induction rels arbitrary: st) (auto simp: relation_record_ok_def split: sum.splits)

lemma load_relations_prefix:
  "snd (load_relations rels st) = snd (load_relations (takeWhile relation_record_ok rels) st)"
  by (induction rels arbitrary: st) (auto simp: relation_record_ok_def split: sum.splits)

lemma load_embeddings_document:
  assumes "files input_path = Some (Document data)"
  shows "load_embeddings input_path files st =
     (case snap_nodes data of
        None \<Rightarrow> (Inl KeyError, st)
      | Some items \<Rightarrow>
          if isl (fst (load_nodes items st)) then load_nodes items st
          else case snap_relations data of
                 None \<Rightarrow> (Inl KeyError, snd (load_nodes items st))
               | Some rels \<Rightarrow> load_relations rels (snd (load_nodes items st)))"
  using assms
  by (auto simp: load_embeddings_def split: option.splits prod.splits sum.splits)

lemma load_embeddings_written:
  "load_embeddings input_path (files(input_path \<mapsto> Document data)) st =
     (case snap_nodes data of
        None \<Rightarrow> (Inl KeyError, st)
      | Some items \<Rightarrow>
          if isl (fst (load_nodes items st)) then load_nodes items st
          else case snap_relations data of
                 None \<Rightarrow> (Inl KeyError, snd (load_nodes items st))
               | Some rels \<Rightarrow> load_relations rels (snd (load_nodes items st)))"
  by (rule load_embeddings_document) simp

lemma load_nodes_step:
  assumes "node_record_ok nd"
  shows "load_nodes ((node_id, nd) # items) st =
           load_nodes items
             (st\<lparr>code_nodes := AList.update node_id (the (loaded_node nd)) (code_nodes st),
                 call_graph := add_node node_id (the (loaded_node nd)) (call_graph st)\<rparr>)"
proof -
  from assms obtain m raw t node0 where
    "nd_metadata nd = Some m" "nd_embedding nd = Some raw" "truthy raw = Inr t"
    "CodeNode_init m = Inr node0"
    by (auto simp: node_record_ok_def split: option.splits sum.splits)
  then show ?thesis by (simp add: Let_def loaded_node_def)
qed

lemma load_nodes_stores:
  assumes "list_all (\<lambda>(node_id, nd). node_record_ok nd) items"
  shows "code_nodes (snd (load_nodes items st)) =
           fold (\<lambda>(node_id, node). AList.update node_id node)
             (map (\<lambda>(node_id, nd). (node_id, the (loaded_node nd))) items) (code_nodes st) \<and>
         code_relations (snd (load_nodes items st)) = code_relations st \<and>
         call_graph (snd (load_nodes items st)) =
           fold (\<lambda>(node_id, node). add_node node_id node)
             (map (\<lambda>(node_id, nd). (node_id, the (loaded_node nd))) items) (call_graph st)"
  using assms
proof (induction items arbitrary: st)
  case Nil
  show ?case by simp
next
  case (Cons item items)
  obtain node_id nd where item: "item = (node_id, nd)" by (cases item)
  from Cons.prems item have ok: "node_record_ok nd"
    and rest: "list_all (\<lambda>(node_id, nd). node_record_ok nd) items" by simp_all
  from Cons.IH [OF rest] item show ?case
    by (simp add: load_nodes_step [OF ok] del: load_nodes.simps)
qed

lemma load_relations_stores:
  assumes "list_all relation_record_ok rels"
  shows "code_nodes (snd (load_relations rels st)) = code_nodes st \<and>
         code_relations (snd (load_relations rels st)) =
           code_relations st @ map (\<lambda>r. the (loaded_relation r)) rels \<and>
         call_graph (snd (load_relations rels st)) =
           fold (\<lambda>rel. add_edge (source_id rel) (target_id rel) (relation_type rel, confidence rel))
             (map (\<lambda>r. the (loaded_relation r)) rels) (call_graph st)"
  using assms
  by (induction rels arbitrary: st)
     (auto simp: relation_record_ok_def loaded_relation_def add_code_relation_def split: sum.splits)

lemma takeWhile_all: "list_all P (takeWhile P xs)"
  by (induction xs) auto

text \<open>
  C8 (amended). An import fails exactly when the document is not well formed (a key or a
  required field is missing), and a failed import is not rolled back. When it returns or
  raises, the store holds what it held before and every record of the document that comes
  before the first missing key or malformed record, and nothing of what comes after:
  \<open>code_nodes\<close> is the old dictionary updated, in order, with the nodes of those node
  records, \<open>code_relations\<close> is the old list followed by their relations, and the call
  graph is the old graph with a node added for each of the nodes and then an edge for each
  of the relations. If the \<open>nodes\<close> key is missing or the first node record is
  malformed, nothing is stored and the store is as it was.
\<close>

theorem load_embeddings_keeps_loaded_prefix:
  assumes "files input_path = Some (Document data)"
  shows "(fst (load_embeddings input_path files st) = Inr () \<longleftrightarrow> well_formed data) \<and>
         code_nodes (snd (load_embeddings input_path files st)) =
           fold (\<lambda>(node_id, node). AList.update node_id node) (stored_nodes data) (code_nodes st) \<and>
         code_relations (snd (load_embeddings input_path files st)) =
           code_relations st @ stored_relations data \<and>
         call_graph (snd (load_embeddings input_path files st)) =
           fold (\<lambda>rel. add_edge (source_id rel) (target_id rel) (relation_type rel, confidence rel))
             (stored_relations data)
             (fold (\<lambda>(node_id, node). add_node node_id node) (stored_nodes data) (call_graph st)) \<and>
         fst (load_embeddings input_path
                (files(input_path \<mapsto> Document (loadable_prefix data))) st) = Inr () \<and>
         snd (load_embeddings input_path files st) =
           snd (load_embeddings input_path
                  (files(input_path \<mapsto> Document (loadable_prefix data))) st) \<and>
         ((snap_nodes data = None \<or>
           (\<exists>node_id nd items. snap_nodes data = Some ((node_id, nd) # items) \<and>
              \<not> node_record_ok nd))
          \<longrightarrow> snd (load_embeddings input_path files st) = st)"
proof -
  let ?ok = "\<lambda>(node_id, nd). node_record_ok nd"
  let ?files' = "files(input_path \<mapsto> Document (loadable_prefix data))"
  note full = load_embeddings_document [where files = files and input_path = input_path and st = st, OF assms]
  note pre = load_embeddings_written
  show ?thesis
  proof (cases "snap_nodes data")
    case None
    then show ?thesis
      by (simp add: full pre loadable_prefix_def well_formed_def stored_nodes_def
          stored_relations_def)
  next
    case (Some items)
    note tw = takeWhile_all [of ?ok items]
    note stored = load_nodes_stores [OF tw, of st]
    show ?thesis
    proof (cases "list_all ?ok items")
      case False
      have bad: "isl (fst (load_nodes items st))" by (rule load_nodes_fails [OF False])
      have good: "fst (load_nodes (takeWhile ?ok items) st) = Inr ()"
        by (rule load_nodes_ok [OF tw])
      have first: "snd (load_nodes items st) = st"
        if "items = (node_id, nd) # rest" "\<not> node_record_ok nd" for node_id nd rest
        using that load_nodes_first_bad by simp
      have a: "fst (load_embeddings input_path files st) \<noteq> Inr ()"
        using bad Some by (auto simp: full)
      have b: "\<not> well_formed data"
        using False Some by (simp add: well_formed_def split: option.splits)
      have c: "load_embeddings input_path ?files' st = (Inr (), snd (load_nodes (takeWhile ?ok items) st))"
        using False Some good
        by (simp add: pre loadable_prefix_def prod_eq_iff del: load_nodes.simps)
      have d: "snd (load_embeddings input_path files st) = snd (load_nodes items st)"
        using bad Some by (simp add: full)
      have e: "snd (load_embeddings input_path files st) = snd (load_nodes (takeWhile ?ok items) st)"
        using d load_nodes_prefix [of items st] by simp
      have sn: "stored_nodes data = map (\<lambda>(node_id, nd). (node_id, the (loaded_node nd))) (takeWhile ?ok items)"
        and sr: "stored_relations data = []"
        using Some False by (simp_all add: stored_nodes_def stored_relations_def split: option.splits)
      from a b c e first Some stored sn sr show ?thesis
        by (auto simp del: load_nodes.simps)
    next
      case True
      have good: "fst (load_nodes items st) = Inr ()" by (rule load_nodes_ok [OF True])
      let ?st1 = "snd (load_nodes items st)"
      have twid: "takeWhile ?ok items = items"
        using True by (simp add: list_all_iff takeWhile_eq_all_conv)
      note stored1 = stored [unfolded twid]
      have sn: "stored_nodes data = map (\<lambda>(node_id, nd). (node_id, the (loaded_node nd))) items"
        unfolding stored_nodes_def Some by (simp only: option.case twid)
      have notfirst: "node_record_ok nd" if "items = (node_id, nd) # rest" for node_id nd rest
        using that True by simp
      show ?thesis
      proof (cases "snap_relations data")
        case None
        have sr: "stored_relations data = []"
          using Some None by (simp add: stored_relations_def)
        from None Some True good notfirst stored1 sn sr show ?thesis
          by (auto simp: full pre loadable_prefix_def well_formed_def simp del: load_nodes.simps)
      next
        case rels: (Some rels)
        note twr = takeWhile_all [of relation_record_ok rels]
        have sr: "stored_relations data =
            map (\<lambda>r. the (loaded_relation r)) (takeWhile relation_record_ok rels)"
          using Some rels True by (simp add: stored_relations_def)
        have e: "fst (load_relations rels ?st1) = Inr () \<longleftrightarrow> list_all relation_record_ok rels"
          using load_relations_ok [of rels ?st1] load_relations_fails [of rels ?st1]
          by (cases "list_all relation_record_ok rels") auto
        note rs = load_relations_stores [OF twr, of ?st1]
        from rels Some True good notfirst e load_relations_ok [OF twr, of ?st1]
          load_relations_prefix [of rels ?st1] stored1 sn sr rs
        show ?thesis
          by (auto simp: full pre loadable_prefix_def well_formed_def
              simp del: load_nodes.simps load_relations.simps)
      qed
    qed
  qed
qed

lemma record_a_loads: "node_record_ok record_a" "loaded_node record_a = Some node_a"
  by (simp_all add: node_record_ok_def loaded_node_def record_a_def truthy_def CodeNode_init_def
      np_array_def node_a_def)

lemma load_record_a:
  "load_nodes ((''com.example.A'', record_a) # items) GraphCodeBERTEmbedder_init =
     load_nodes items
       \<lparr>code_nodes = [(''com.example.A'', node_a)], code_relations = [],
        call_graph = \<lparr>nx_node = [(''com.example.A'', Some node_a)], nx_adj = []\<rparr>\<rparr>"
  by (simp add: load_nodes_step [OF record_a_loads(1)] record_a_loads(2)
      GraphCodeBERTEmbedder_init_def DiGraph_new_def add_node_def del: load_nodes.simps)

theorem load_embeddings_keeps_loaded_prefix_witness:
  "[''snapshot.json'' \<mapsto> Document doc_missing_metadata] ''snapshot.json''
     = Some (Document doc_missing_metadata) \<and>
   \<not> well_formed doc_missing_metadata \<and>
   fst (load_embeddings ''snapshot.json'' [''snapshot.json'' \<mapsto> Document doc_missing_metadata]
          GraphCodeBERTEmbedder_init) \<noteq> Inr () \<and>
   snd (load_embeddings ''snapshot.json'' [''snapshot.json'' \<mapsto> Document doc_missing_metadata]
          GraphCodeBERTEmbedder_init) =
     \<lparr>code_nodes = [(''com.example.A'', node_a)], code_relations = [],
      call_graph = \<lparr>nx_node = [(''com.example.A'', Some node_a)], nx_adj = []\<rparr>\<rparr> \<and>
   [''snapshot.json'' \<mapsto> Document doc_bad_relation] ''snapshot.json''
     = Some (Document doc_bad_relation) \<and>
   fst (load_embeddings ''snapshot.json'' [''snapshot.json'' \<mapsto> Document doc_bad_relation]
          GraphCodeBERTEmbedder_init) \<noteq> Inr () \<and>
   snd (load_embeddings ''snapshot.json'' [''snapshot.json'' \<mapsto> Document doc_bad_relation]
          GraphCodeBERTEmbedder_init) =
     \<lparr>code_nodes = [(''com.example.A'', node_a)], code_relations = [rel_call],
      call_graph = \<lparr>nx_node = [(''com.example.A'', Some node_a), (''A'', None), (''B'', None)],
                    nx_adj = [((''A'', ''B''), (''call'', 1))]\<rparr>\<rparr>"
proof -
  let ?init = GraphCodeBERTEmbedder_init
  have init: "code_nodes ?init = []" "code_relations ?init = []"
    "call_graph ?init = \<lparr>nx_node = [], nx_adj = []\<rparr>"
    by (simp_all add: GraphCodeBERTEmbedder_init_def DiGraph_new_def)
  have bad_b: "\<not> node_record_ok \<lparr>nd_metadata = None, nd_embedding = Some PyNone\<rparr>"
    by (simp add: node_record_ok_def)
  have rel_ok: "relation_record_ok (asdict_relation rel_call)"
    "loaded_relation (asdict_relation rel_call) = Some rel_call"
    by (simp_all add: relation_record_ok_def loaded_relation_def CodeRelation_init_def
        asdict_relation_def)
  have rel_bad: "\<not> relation_record_ok \<lparr>rd_source_id = Some ''A'', rd_target_id = Some ''C'',
         rd_relation_type = Some ''call'', rd_confidence = None\<rparr>"
    by (simp add: relation_record_ok_def CodeRelation_init_def)
  \<comment> \<open>the first document\<close>
  have h1: "[''snapshot.json'' \<mapsto> Document doc_missing_metadata] ''snapshot.json''
     = Some (Document doc_missing_metadata)" by simp
  have nwf1: "\<not> well_formed doc_missing_metadata"
    using record_a_loads bad_b by (simp add: well_formed_def doc_missing_metadata_def)
  have sn1: "stored_nodes doc_missing_metadata = [(''com.example.A'', node_a)]"
    and sr1: "stored_relations doc_missing_metadata = []"
    using record_a_loads bad_b
    by (simp_all add: stored_nodes_def stored_relations_def doc_missing_metadata_def)
  note t1 = load_embeddings_keeps_loaded_prefix [where st = ?init
        and files = "[''snapshot.json'' \<mapsto> Document doc_missing_metadata]"
        and input_path = "''snapshot.json''" and data = doc_missing_metadata, OF h1]
  let ?st1 = "snd (load_embeddings ''snapshot.json''
      [''snapshot.json'' \<mapsto> Document doc_missing_metadata] ?init)"
  from t1 nwf1 have f1: "fst (load_embeddings ''snapshot.json''
      [''snapshot.json'' \<mapsto> Document doc_missing_metadata] ?init) \<noteq> Inr ()" by blast
  have "code_nodes ?st1 = [(''com.example.A'', node_a)]" "code_relations ?st1 = []"
    "call_graph ?st1 = \<lparr>nx_node = [(''com.example.A'', Some node_a)], nx_adj = []\<rparr>"
    unfolding t1 [THEN conjunct2, THEN conjunct1]
      t1 [THEN conjunct2, THEN conjunct2, THEN conjunct1]
      t1 [THEN conjunct2, THEN conjunct2, THEN conjunct2, THEN conjunct1]
    by (simp_all add: sn1 sr1 init add_node_def)
  then have s1: "?st1 = \<lparr>code_nodes = [(''com.example.A'', node_a)], code_relations = [],
      call_graph = \<lparr>nx_node = [(''com.example.A'', Some node_a)], nx_adj = []\<rparr>\<rparr>"
    by (cases ?st1) simp
  \<comment> \<open>the second document\<close>
  have h2: "[''snapshot.json'' \<mapsto> Document doc_bad_relation] ''snapshot.json''
     = Some (Document doc_bad_relation)" by simp
  have nwf2: "\<not> well_formed doc_bad_relation"
    using record_a_loads rel_ok rel_bad by (simp add: well_formed_def doc_bad_relation_def)
  have sn2: "stored_nodes doc_bad_relation = [(''com.example.A'', node_a)]"
    and sr2: "stored_relations doc_bad_relation = [rel_call]"
    using record_a_loads rel_ok rel_bad
    by (simp_all add: stored_nodes_def stored_relations_def doc_bad_relation_def)
  note t2 = load_embeddings_keeps_loaded_prefix [where st = ?init
        and files = "[''snapshot.json'' \<mapsto> Document doc_bad_relation]"
        and input_path = "''snapshot.json''" and data = doc_bad_relation, OF h2]
  let ?st2 = "snd (load_embeddings ''snapshot.json''
      [''snapshot.json'' \<mapsto> Document doc_bad_relation] ?init)"
  from t2 nwf2 have f2: "fst (load_embeddings ''snapshot.json''
      [''snapshot.json'' \<mapsto> Document doc_bad_relation] ?init) \<noteq> Inr ()" by blast
  have "code_nodes ?st2 = [(''com.example.A'', node_a)]" "code_relations ?st2 = [rel_call]"
    "call_graph ?st2 = \<lparr>nx_node = [(''com.example.A'', Some node_a), (''A'', None), (''B'', None)],
                    nx_adj = [((''A'', ''B''), (''call'', 1))]\<rparr>"
    unfolding t2 [THEN conjunct2, THEN conjunct1]
      t2 [THEN conjunct2, THEN conjunct2, THEN conjunct1]
      t2 [THEN conjunct2, THEN conjunct2, THEN conjunct2, THEN conjunct1]
    by (simp_all add: sn2 sr2 init add_node_def add_edge_def touch_node_def has_node_def Let_def
        rel_call_def)
  then have s2: "?st2 = \<lparr>code_nodes = [(''com.example.A'', node_a)], code_relations = [rel_call],
      call_graph = \<lparr>nx_node = [(''com.example.A'', Some node_a), (''A'', None), (''B'', None)],
                    nx_adj = [((''A'', ''B''), (''call'', 1))]\<rparr>\<rparr>"
    by (cases ?st2) simp
  from h1 nwf1 f1 s1 h2 f2 s2 show ?thesis by blast
qed

text \<open>
  C8 as the specification states it fails on a document whose second node record has no
  metadata, and on one without the \<open>relations\<close> key: the import raises KeyError and the
  store, empty before, holds the first node.
\<close>

theorem load_embeddings_partial_counterexample:
  "fst (load_embeddings ''snapshot.json'' [''snapshot.json'' \<mapsto> Document doc_missing_metadata]
          GraphCodeBERTEmbedder_init) = Inl KeyError \<and>
   code_nodes (snd (load_embeddings ''snapshot.json''
          [''snapshot.json'' \<mapsto> Document doc_missing_metadata] GraphCodeBERTEmbedder_init))
     = [(''com.example.A'', node_a)] \<and>
   fst (load_embeddings ''snapshot.json'' [''snapshot.json'' \<mapsto> Document doc_missing_relations]
          GraphCodeBERTEmbedder_init) = Inl KeyError \<and>
   code_nodes (snd (load_embeddings ''snapshot.json''
          [''snapshot.json'' \<mapsto> Document doc_missing_relations] GraphCodeBERTEmbedder_init))
     = [(''com.example.A'', node_a)] \<and>
   code_nodes GraphCodeBERTEmbedder_init = []"
proof -
  let ?st_a = "\<lparr>code_nodes = [(''com.example.A'', node_a)], code_relations = [],
        call_graph = \<lparr>nx_node = [(''com.example.A'', Some node_a)], nx_adj = []\<rparr>\<rparr>"
  have m: "load_nodes [(''com.example.A'', record_a),
      (''com.example.B'', \<lparr>nd_metadata = None, nd_embedding = Some PyNone\<rparr>)]
      GraphCodeBERTEmbedder_init = (Inl KeyError, ?st_a)"
    by (simp add: load_record_a del: load_nodes.simps(2)) simp
  have r: "load_nodes [(''com.example.A'', record_a)] GraphCodeBERTEmbedder_init = (Inr (), ?st_a)"
    by (simp add: load_record_a del: load_nodes.simps(2))
  have a: "load_embeddings ''snapshot.json'' [''snapshot.json'' \<mapsto> Document doc_missing_metadata]
      GraphCodeBERTEmbedder_init = (Inl KeyError, ?st_a)"
    unfolding load_embeddings_written [where files = Map.empty] doc_missing_metadata_def
    by (simp add: m del: load_nodes.simps)
  have b: "load_embeddings ''snapshot.json'' [''snapshot.json'' \<mapsto> Document doc_missing_relations]
      GraphCodeBERTEmbedder_init = (Inl KeyError, ?st_a)"
    unfolding load_embeddings_written [where files = Map.empty] doc_missing_relations_def
    by (simp add: r del: load_nodes.simps)
  show ?thesis
    unfolding a b by (simp add: GraphCodeBERTEmbedder_init_def)
qed

lemma export_embeddings_raises:
  assumes "(node_id, node) \<in> set (code_nodes st)" and "embedding node = Some v"
  shows "export_embeddings output_path st files = (Inl TypeError, files(output_path \<mapsto> Incomplete))"
proof -
  have "\<not> node_data_serializable
          \<lparr>nd_metadata = Some (asdict_node node), nd_embedding = Some (PyList v)\<rparr>"
    using assms(2) by (simp add: node_data_serializable_def asdict_node_def is_ndarray_def)
  with assms show ?thesis
    by (force simp: export_embeddings_def json_dump_def list_all_iff Let_def)
qed

lemma alist_update_new:
  "k \<notin> fst ` set al \<Longrightarrow> AList.update k v al = al @ [(k, v)]"
  by (induction al) auto

lemma CodeNode_init_asdict:
  "CodeNode_init (asdict_node node) = Inr (node\<lparr>embedding := None\<rparr>)"
  by (simp add: CodeNode_init_def asdict_node_def)

lemma CodeRelation_init_asdict: "CodeRelation_init (asdict_relation rel) = Inr rel"
  by (simp add: CodeRelation_init_def asdict_relation_def)

lemma load_nodes_exported:
  assumes "list_all (\<lambda>(node_id, node). embedding node = None) items"
    and "distinct (map fst (code_nodes st) @ map fst items)"
  shows "fst (load_nodes (map (\<lambda>(node_id, node).
             (node_id, \<lparr>nd_metadata = Some (asdict_node node), nd_embedding = Some PyNone\<rparr>)) items) st)
           = Inr () \<and>
         code_nodes (snd (load_nodes (map (\<lambda>(node_id, node).
             (node_id, \<lparr>nd_metadata = Some (asdict_node node), nd_embedding = Some PyNone\<rparr>)) items) st))
           = code_nodes st @ items \<and>
         code_relations (snd (load_nodes (map (\<lambda>(node_id, node).
             (node_id, \<lparr>nd_metadata = Some (asdict_node node), nd_embedding = Some PyNone\<rparr>)) items) st))
           = code_relations st"
  using assms
proof (induction items arbitrary: st)
  case Nil
  show ?case by simp
next
  case (Cons item items)
  obtain node_id node where item: "item = (node_id, node)" by (cases item)
  from Cons.prems item have none: "embedding node = None"
    and rest: "list_all (\<lambda>(node_id, node). embedding node = None) items"
    and new: "node_id \<notin> fst ` set (code_nodes st)"
    and dist: "distinct (map fst (code_nodes st @ [(node_id, node)]) @ map fst items)"
    by auto
  let ?st = "st\<lparr>code_nodes := AList.update node_id node (code_nodes st),
                 call_graph := add_node node_id node (call_graph st)\<rparr>"
  have same: "node\<lparr>embedding := None\<rparr> = node" using none by simp
  have upd: "code_nodes ?st = code_nodes st @ [(node_id, node)]"
    using new by (simp add: alist_update_new)
  from dist upd have dist': "distinct (map fst (code_nodes ?st) @ map fst items)" by simp
  from Cons.IH [OF rest dist'] item upd show ?case
    by (simp add: truthy_def CodeNode_init_asdict same)
qed

lemma load_relations_exported:
  "fst (load_relations (map asdict_relation rels) st) = Inr () \<and>
   code_nodes (snd (load_relations (map asdict_relation rels) st)) = code_nodes st \<and>
   code_relations (snd (load_relations (map asdict_relation rels) st)) = code_relations st @ rels"
  by (induction rels arbitrary: st)
     (simp_all add: CodeRelation_init_asdict add_code_relation_def)

text \<open>
  The part of the round trip that holds: a store none of whose nodes has an embedding is
  exported, and loading the file into an empty store gives back its nodes and relations.
\<close>

lemma round_trip_without_embeddings:
  assumes "list_all (\<lambda>(node_id, node). embedding node = None) (code_nodes st)"
    and "distinct (map fst (code_nodes st))"
  shows "fst (export_embeddings path st files) = Inr () \<and>
         fst (load_embeddings path (snd (export_embeddings path st files))
                GraphCodeBERTEmbedder_init) = Inr () \<and>
         code_nodes (snd (load_embeddings path (snd (export_embeddings path st files))
                GraphCodeBERTEmbedder_init)) = code_nodes st \<and>
         code_relations (snd (load_embeddings path (snd (export_embeddings path st files))
                GraphCodeBERTEmbedder_init)) = code_relations st"
proof -
  let ?enc = "\<lambda>(node_id, node).
     (node_id, \<lparr>nd_metadata = Some (asdict_node node), nd_embedding = Some PyNone\<rparr>)"
  let ?data = "\<lparr>snap_nodes = Some (map ?enc (code_nodes st)),
                snap_relations = Some (map asdict_relation (code_relations st))\<rparr>"
  have enc: "map (\<lambda>(node_id, node).
                 (node_id,
                  \<lparr>nd_metadata = Some (asdict_node node),
                   nd_embedding = Some (case embedding node of
                                          None \<Rightarrow> PyNone | Some v \<Rightarrow> PyList v)\<rparr>))
                 (code_nodes st) = map ?enc (code_nodes st)"
    using assms(1) by (auto simp: list_all_iff)
  have ser: "list_all (\<lambda>(node_id, nd). node_data_serializable nd) (map ?enc (code_nodes st))"
    using assms(1)
    by (auto simp: list_all_iff node_data_serializable_def is_ndarray_def asdict_node_def)
  have exp: "export_embeddings path st files = (Inr (), files(path \<mapsto> Document ?data))"
    using ser by (simp add: export_embeddings_def Let_def enc json_dump_def)
  let ?init = GraphCodeBERTEmbedder_init
  have i: "code_nodes ?init = []" "code_relations ?init = []"
    by (simp_all add: GraphCodeBERTEmbedder_init_def)
  have d0: "distinct (map fst (code_nodes ?init) @ map fst (code_nodes st))"
    using assms(2) by (simp add: i)
  note n = load_nodes_exported [OF assms(1) d0]
  let ?st1 = "snd (load_nodes (map ?enc (code_nodes st)) ?init)"
  note r = load_relations_exported [of "code_relations st" ?st1]
  have load: "load_embeddings path (files(path \<mapsto> Document ?data)) ?init =
      load_relations (map asdict_relation (code_relations st)) ?st1"
    using n by (simp add: load_embeddings_written del: load_nodes.simps load_relations.simps)
  show ?thesis
    using n r by (simp add: exp load i del: load_nodes.simps load_relations.simps)
qed

text \<open>
  C1. The store that holds the one node \<open>A\<close> with its embedding is not exported:
  \<open>json.dump\<close> raises TypeError on the array that \<open>asdict\<close> left in the metadata, the
  file is left incomplete, and loading it into an empty store raises and loads nothing.
\<close>

theorem export_with_embedding_raises:
  "export_embeddings ''snapshot.json'' store_a Map.empty
     = (Inl TypeError, [''snapshot.json'' \<mapsto> Incomplete]) \<and>
   load_embeddings ''snapshot.json''
     (snd (export_embeddings ''snapshot.json'' store_a Map.empty)) GraphCodeBERTEmbedder_init
     = (Inl JSONDecodeError, GraphCodeBERTEmbedder_init)"
proof -
  have m: "(''com.example.A'', node_a) \<in> set (code_nodes store_a)"
    by (simp add: store_a_eq)
  have e: "embedding node_a = Some [1, 0]" by (simp add: node_a_def)
  have x: "export_embeddings ''snapshot.json'' store_a Map.empty
     = (Inl TypeError, [''snapshot.json'' \<mapsto> Incomplete])"
    by (rule export_embeddings_raises [OF m e])
  show ?thesis
    unfolding x by (simp add: load_embeddings_def)
qed

section \<open>What the traversal loop computes\<close>

lemma hops_front:
  "v \<in> set (hops E (Suc k) u) \<longleftrightarrow> (\<exists>n \<in> set (adjacent E u). v \<in> set (hops E k n))"
proof (induction k arbitrary: v)
  case 0
  show ?case by simp
next
  case (Suc k)
  have "v \<in> set (hops E (Suc (Suc k)) u) \<longleftrightarrow>
        (\<exists>w \<in> set (hops E (Suc k) u). v \<in> set (adjacent E w))"
    by simp
  also have "\<dots> \<longleftrightarrow> (\<exists>w. (\<exists>n \<in> set (adjacent E u). w \<in> set (hops E k n)) \<and> v \<in> set (adjacent E w))"
    using Suc.IH by blast
  also have "\<dots> \<longleftrightarrow> (\<exists>n \<in> set (adjacent E u). v \<in> set (hops E (Suc k) n))"
    by auto
  finally show ?case .
qed

lemma hops_step:
  "w \<in> set (hops E k s) \<Longrightarrow> v \<in> set (adjacent E w) \<Longrightarrow> v \<in> set (hops E (Suc k) s)"
  by auto

lemma queue_ok_head_least:
  assumes "queue_ok E s ((c, dp) # rest)" and "(x, dx) \<in> set rest"
  shows "dp \<le> dx" and "dx \<le> dp + 1" and "0 \<le> dx"
  using assms by (auto simp: queue_ok_def)

lemma queue_ok_tail:
  assumes "queue_ok E s ((c, dp) # rest)"
  shows "queue_ok E s rest"
proof -
  have srt: "sorted (map snd rest)" using assms by (simp add: queue_ok_def)
  have "0 \<le> dx \<and> dx \<le> snd (hd rest) + 1 \<and> x \<in> set (hops E (nat dx) s)"
    if mem: "(x, dx) \<in> set rest" for x dx
  proof -
    from mem have ne: "rest \<noteq> []" by auto
    then have "hd rest \<in> set rest" by simp
    then have "(fst (hd rest), snd (hd rest)) \<in> set rest" by simp
    from queue_ok_head_least(1) [OF assms this] have "dp \<le> snd (hd rest)" .
    moreover from assms mem have "0 \<le> dx" "dx \<le> dp + 1" "x \<in> set (hops E (nat dx) s)"
      by (auto simp: queue_ok_def)
    ultimately show ?thesis by simp
  qed
  with srt show ?thesis by (auto simp: queue_ok_def)
qed

lemma inv_init: "traverse_inv E s m [(s, 0)] {} {}"
proof -
  have "cover_ok E s m [(s, 0)] {}"
    unfolding cover_ok_def by auto
  then show ?thesis
    by (simp add: traverse_inv_def queue_ok_def found_ok_def frontier_ok_def)
qed

lemma inv_skip:
  assumes inv: "traverse_inv E s m ((c, dp) # rest) V F" and skip: "c \<in> V \<or> m \<le> dp"
  shows "traverse_inv E s m rest V F"
proof -
  from inv have q: "queue_ok E s ((c, dp) # rest)" and f: "found_ok E s m V F"
    and k: "dp < m \<Longrightarrow> frontier_ok E ((c, dp) # rest) V"
    and j: "cover_ok E s m ((c, dp) # rest) V"
    by (simp_all add: traverse_inv_def)
  have q': "queue_ok E s rest" by (rule queue_ok_tail [OF q])
  have k': "frontier_ok E rest V" if ne: "rest \<noteq> []" and lt: "snd (hd rest) < m"
  proof -
    from ne have "(fst (hd rest), snd (hd rest)) \<in> set rest" by simp
    from queue_ok_head_least(1) [OF q this] lt have dp: "dp < m" by simp
    with skip have cV: "c \<in> V" by auto
    from k [OF dp] cV show ?thesis
      unfolding frontier_ok_def by (auto simp: image_iff) 
  qed
  have j': "cover_ok E s m rest V"
    unfolding cover_ok_def
  proof (intro allI impI)
    fix v D
    assume vD: "v \<in> set (hops E D s) \<and> int D < m"
    with j have "v \<in> V \<or> (\<exists>c' dp' j. (c', dp') \<in> set ((c, dp) # rest) \<and> c' \<notin> V \<and>
        v \<in> set (hops E j c') \<and> dp' + int j \<le> int D)"
      unfolding cover_ok_def by blast
    then show "v \<in> V \<or> (\<exists>c' dp' j. (c', dp') \<in> set rest \<and> c' \<notin> V \<and>
        v \<in> set (hops E j c') \<and> dp' + int j \<le> int D)"
    proof
      assume "v \<in> V" then show ?thesis by simp
    next
      assume "\<exists>c' dp' j. (c', dp') \<in> set ((c, dp) # rest) \<and> c' \<notin> V \<and>
        v \<in> set (hops E j c') \<and> dp' + int j \<le> int D"
      then obtain c' dp' j where mem: "(c', dp') \<in> set ((c, dp) # rest)" and nV: "c' \<notin> V"
        and w: "v \<in> set (hops E j c')" and le: "dp' + int j \<le> int D"
        by auto
      have "(c', dp') \<noteq> (c, dp)"
      proof
        assume eq: "(c', dp') = (c, dp)"
        with nV skip have "m \<le> dp" by auto
        with eq le vD show False by auto
      qed
      with mem have "(c', dp') \<in> set rest" by auto
      with nV w le show ?thesis by blast
    qed
  qed
  from q' f k' j' show ?thesis by (simp add: traverse_inv_def)
qed

lemma inv_expand:
  assumes inv: "traverse_inv E s m ((c, dp) # rest) V F" and cV: "c \<notin> V" and lt: "dp < m"
  shows "traverse_inv E s m
           (rest @ map (\<lambda>n. (n, dp + 1)) (filter (\<lambda>n. n \<notin> insert c V) (adjacent E c)))
           (insert c V) (F \<union> set (adjacent E c))"
proof -
  let ?new = "map (\<lambda>n. (n, dp + 1)) (filter (\<lambda>n. n \<notin> insert c V) (adjacent E c))"
  let ?q = "rest @ ?new"
  let ?V = "insert c V"
  let ?F = "F \<union> set (adjacent E c)"
  from inv lt have q: "queue_ok E s ((c, dp) # rest)" and f: "found_ok E s m V F"
    and k: "frontier_ok E ((c, dp) # rest) V"
    and j: "cover_ok E s m ((c, dp) # rest) V"
    by (simp_all add: traverse_inv_def)
  from q have dp0: "0 \<le> dp" and cw: "c \<in> set (hops E (nat dp) s)"
    by (auto simp: queue_ok_def)
  have nat_dp: "nat (dp + 1) = Suc (nat dp)" using dp0 by simp
  have rest_bounds: "dp \<le> dx \<and> dx \<le> dp + 1 \<and> 0 \<le> dx \<and> x \<in> set (hops E (nat dx) s)"
    if "(x, dx) \<in> set rest" for x dx
    using that q queue_ok_head_least [OF q that] by (auto simp: queue_ok_def)
  have new_walk: "n \<in> set (hops E (Suc (nat dp)) s)" if "n \<in> set (adjacent E c)" for n
    using hops_step [OF cw that] .
  \<comment> \<open>every entry of the new queue\<close>
  have q_bounds: "dp \<le> dx \<and> dx \<le> dp + 1 \<and> 0 \<le> dx \<and> x \<in> set (hops E (nat dx) s)"
    if "(x, dx) \<in> set ?q" for x dx
    using that rest_bounds new_walk dp0 nat_dp by auto
  have srt: "sorted (map snd ?q)"
  proof -
    have "sorted (map snd rest)" using q by (simp add: queue_ok_def)
    moreover have "sorted (map snd ?new)" by (simp add: comp_def sorted_map)
    moreover have "\<forall>x \<in> set (map snd rest). \<forall>y \<in> set (map snd ?new). x \<le> y"
      using rest_bounds by auto
    ultimately show ?thesis by (simp add: sorted_append del: map_map)
  qed
  have q': "queue_ok E s ?q"
  proof -
    have "0 \<le> dx \<and> dx \<le> snd (hd ?q) + 1 \<and> x \<in> set (hops E (nat dx) s)"
      if mem: "(x, dx) \<in> set ?q" for x dx
    proof -
      have "?q \<noteq> []"
        using length_pos_if_in_set [OF mem] by (metis length_greater_0_conv)
      then have "hd ?q \<in> set ?q" by (rule hd_in_set)
      then have "(fst (hd ?q), snd (hd ?q)) \<in> set ?q" by simp
      from q_bounds [OF this] have "dp \<le> snd (hd ?q)" by simp
      with q_bounds [OF mem] show ?thesis by simp
    qed
    with srt show ?thesis unfolding queue_ok_def by blast
  qed
  have f': "found_ok E s m ?V ?F"
  proof -
    have "\<exists>k\<ge>1. int k \<le> m \<and> w \<in> set (hops E k s)" if "w \<in> ?F" for w
    proof (cases "w \<in> F")
      case True
      with f show ?thesis by (auto simp: found_ok_def)
    next
      case False
      with that have "w \<in> set (adjacent E c)" by simp
      from new_walk [OF this] lt dp0 show ?thesis
        by (intro exI [of _ "Suc (nat dp)"]) simp
    qed
    moreover have "set (adjacent E u) \<subseteq> ?F" if "u \<in> ?V" for u
      using that f by (auto simp: found_ok_def)
    ultimately show ?thesis unfolding found_ok_def by blast
  qed
  have k': "frontier_ok E ?q ?V"
    unfolding frontier_ok_def
  proof (intro ballI)
    fix u n
    assume u: "u \<in> ?V" and n: "n \<in> set (adjacent E u)"
    show "n \<in> ?V \<or> n \<in> fst ` set ?q"
    proof (cases "u = c")
      case True
      show ?thesis
      proof (cases "n \<in> ?V")
        case True then show ?thesis by simp
      next
        case nV: False
        with n \<open>u = c\<close> have "(n, dp + 1) \<in> set ?q" by simp
        then have "fst (n, dp + 1) \<in> fst ` set ?q" by (rule imageI)
        then show ?thesis by simp
      qed
    next
      case False
      with u have "u \<in> V" by simp
      with k n have "n \<in> V \<or> n \<in> fst ` set ((c, dp) # rest)"
        unfolding frontier_ok_def by blast
      then show ?thesis
      proof
        assume "n \<in> V" then show ?thesis by simp
      next
        assume "n \<in> fst ` set ((c, dp) # rest)"
        then obtain x where "x \<in> set ((c, dp) # rest)" and "n = fst x" by blast
        then have "(n, snd x) \<in> set ((c, dp) # rest)" by simp
        then obtain dn where mem: "(n, dn) \<in> set ((c, dp) # rest)" ..
        show ?thesis
        proof (cases "n = c")
          case True then show ?thesis by simp
        next
          case False
          with mem have "(n, dn) \<in> set ?q" by simp
          then have "fst (n, dn) \<in> fst ` set ?q" by (rule imageI)
          then show ?thesis by simp
        qed
      qed
    qed
  qed
  \<comment> \<open>from a visited node, every walk leads to a visited node or through a queued one\<close>
  have through: "v \<in> ?V \<or> (\<exists>c' dp' j'. (c', dp') \<in> set ?q \<and> c' \<notin> ?V \<and>
        v \<in> set (hops E j' c') \<and> dp' + int j' \<le> dp + int j)"
    if "x \<in> ?V" and "v \<in> set (hops E j x)" for x v j
    using that
  proof (induction j arbitrary: x)
    case 0
    then show ?case by simp
  next
    case (Suc j)
    from Suc.prems(2) obtain n where n: "n \<in> set (adjacent E x)" and w: "v \<in> set (hops E j n)"
      unfolding hops_front by blast
    show ?case
    proof (cases "n \<in> ?V")
      case True
      from Suc.IH [OF True w] show ?thesis
      proof
        assume "v \<in> ?V" then show ?thesis ..
      next
        assume "\<exists>c' dp' j'. (c', dp') \<in> set ?q \<and> c' \<notin> ?V \<and>
          v \<in> set (hops E j' c') \<and> dp' + int j' \<le> dp + int j"
        then obtain c' dp' j' where "(c', dp') \<in> set ?q" "c' \<notin> ?V"
          "v \<in> set (hops E j' c')" "dp' + int j' \<le> dp + int j" by blast
        moreover from this have "dp' + int j' \<le> dp + int (Suc j)" by simp
        ultimately show ?thesis by blast
      qed
    next
      case False
      with k' Suc.prems(1) n have "n \<in> fst ` set ?q" unfolding frontier_ok_def by blast
      then obtain y where "y \<in> set ?q" and "n = fst y" by blast
      then have "(n, snd y) \<in> set ?q" by simp
      then obtain dn where mem: "(n, dn) \<in> set ?q" ..
      from q_bounds [OF mem] have "dn + int j \<le> dp + int (Suc j)" by simp
      with mem False w show ?thesis by blast
    qed
  qed
  have j': "cover_ok E s m ?q ?V"
    unfolding cover_ok_def
  proof (intro allI impI)
    fix v D
    assume vD: "v \<in> set (hops E D s) \<and> int D < m"
    with j have "v \<in> V \<or> (\<exists>c' dp' j. (c', dp') \<in> set ((c, dp) # rest) \<and> c' \<notin> V \<and>
        v \<in> set (hops E j c') \<and> dp' + int j \<le> int D)"
      unfolding cover_ok_def by blast
    then show "v \<in> ?V \<or> (\<exists>c' dp' j. (c', dp') \<in> set ?q \<and> c' \<notin> ?V \<and>
        v \<in> set (hops E j c') \<and> dp' + int j \<le> int D)"
    proof
      assume "v \<in> V" then show ?thesis by simp
    next
      assume "\<exists>c' dp' j. (c', dp') \<in> set ((c, dp) # rest) \<and> c' \<notin> V \<and>
        v \<in> set (hops E j c') \<and> dp' + int j \<le> int D"
      then obtain c' dp' j where mem: "(c', dp') \<in> set ((c, dp) # rest)" and nV: "c' \<notin> V"
        and w: "v \<in> set (hops E j c')" and le: "dp' + int j \<le> int D"
        by auto
      show ?thesis
      proof (cases "c' = c")
        case False
        with mem have "(c', dp') \<in> set ?q" by auto
        with False nV w le show ?thesis by blast
      next
        case True
        have "dp \<le> dp'"
        proof (cases "(c', dp') = (c, dp)")
          case True then show ?thesis by simp
        next
          case False
          with mem have "(c', dp') \<in> set rest" by auto
          from rest_bounds [OF this] show ?thesis by simp
        qed
        with le have le': "dp + int j \<le> int D" by simp
        from True w have "v \<in> set (hops E j c)" by simp
        from through [OF _ this] have "v \<in> ?V \<or> (\<exists>c' dp' j'. (c', dp') \<in> set ?q \<and> c' \<notin> ?V \<and>
          v \<in> set (hops E j' c') \<and> dp' + int j' \<le> dp + int j)"
          by simp
        then show ?thesis
        proof
          assume "v \<in> ?V" then show ?thesis ..
        next
          assume "\<exists>c' dp' j'. (c', dp') \<in> set ?q \<and> c' \<notin> ?V \<and>
            v \<in> set (hops E j' c') \<and> dp' + int j' \<le> dp + int j"
          then obtain c' dp' j' where "(c', dp') \<in> set ?q" "c' \<notin> ?V"
            "v \<in> set (hops E j' c')" "dp' + int j' \<le> dp + int j" by blast
          moreover from this le' have "dp' + int j' \<le> int D" by simp
          ultimately show ?thesis by blast
        qed
      qed
    qed
  qed
  from q' f' k' j' show ?thesis by (simp add: traverse_inv_def)
qed

lemma traverse_result:
  "traverse_inv E s m q V F \<Longrightarrow>
   traverse E m q V F = {w. \<exists>k\<ge>1. int k \<le> m \<and> w \<in> set (hops E k s)}"
proof (induction E m q V F rule: traverse.induct)
  case (1 E m V F)
  then have f: "found_ok E s m V F" and j: "cover_ok E s m [] V"
    by (simp_all add: traverse_inv_def)
  have "w \<in> F" if k: "1 \<le> k" "int k \<le> m" and w: "w \<in> set (hops E k s)" for w k
  proof -
    from k(1) obtain k' where k': "k = Suc k'" by (cases k) auto
    with w obtain u where u: "u \<in> set (hops E k' s)" and wu: "w \<in> set (adjacent E u)"
      by auto
    from k' k(2) have "int k' < m" by simp
    with j u have "u \<in> V" unfolding cover_ok_def by fastforce
    with f wu show ?thesis unfolding found_ok_def by blast
  qed
  moreover have "\<exists>k\<ge>1. int k \<le> m \<and> w \<in> set (hops E k s)" if "w \<in> F" for w
    using that f unfolding found_ok_def by blast
  ultimately show ?case by auto
next
  case (2 E m c dp rest V F)
  show ?case
  proof (cases "c \<in> V \<or> m \<le> dp")
    case True
    from inv_skip [OF "2.prems" True] have "traverse_inv E s m rest V F" .
    from "2.IH"(1) [OF True this] True show ?thesis by simp
  next
    case False
    then have cV: "c \<notin> V" and lt: "dp < m" by auto
    from "2.IH"(2) [OF False inv_expand [OF "2.prems" cV lt]] False show ?thesis by simp
  qed
qed

lemma traverse_from_start:
  "traverse E m [(s, 0)] {} {} = {w. \<exists>k\<ge>1. int k \<le> m \<and> w \<in> set (hops E k s)}"
  by (rule traverse_result [OF inv_init])

lemma adjacent_predecessor_edges:
  "v \<in> set (adjacent (predecessor_edges G) w) \<longleftrightarrow> w \<in> set (adjacent (successor_edges G) v)"
  by (force simp: adjacent_def predecessor_edges_def successor_edges_def image_iff)

lemma hops_predecessor_edges:
  "v \<in> set (hops (predecessor_edges G) k s) \<longleftrightarrow> s \<in> set (hops (successor_edges G) k v)"
proof (induction k arbitrary: s v)
  case 0
  show ?case by auto
next
  case (Suc k)
  have "v \<in> set (hops (predecessor_edges G) (Suc k) s) \<longleftrightarrow>
        (\<exists>w. w \<in> set (hops (predecessor_edges G) k s) \<and> v \<in> set (adjacent (predecessor_edges G) w))"
    by auto
  also have "\<dots> \<longleftrightarrow>
        (\<exists>w. s \<in> set (hops (successor_edges G) k w) \<and> w \<in> set (adjacent (successor_edges G) v))"
    by (simp add: Suc.IH adjacent_predecessor_edges)
  also have "\<dots> \<longleftrightarrow> s \<in> set (hops (successor_edges G) (Suc k) v)"
    unfolding hops_front by blast
  finally show ?case .
qed

lemma downstream_walks:
  "has_node (call_graph st) node_id \<Longrightarrow>
   get_downstream_dependencies st node_id max_depth =
     {w. \<exists>k\<ge>1. int k \<le> max_depth \<and> w \<in> set (hops (successor_edges (call_graph st)) k node_id)}"
  by (simp add: get_downstream_dependencies_def traverse_from_start del: traverse.simps)

lemma upstream_walks:
  "has_node (call_graph st) node_id \<Longrightarrow>
   get_upstream_dependencies st node_id max_depth =
     {w. \<exists>k\<ge>1. int k \<le> max_depth \<and> node_id \<in> set (hops (successor_edges (call_graph st)) k w)}"
  by (simp add: get_upstream_dependencies_def traverse_from_start hops_predecessor_edges
      del: traverse.simps)

lemma shortest_distance_bound:
  assumes "shortest_distance E s v n" and "v \<noteq> s"
  shows "(\<exists>k\<ge>1. int k \<le> m \<and> v \<in> set (hops E k s)) \<longleftrightarrow> int n \<le> m"
proof
  assume "\<exists>k\<ge>1. int k \<le> m \<and> v \<in> set (hops E k s)"
  then obtain k where k: "int k \<le> m" "v \<in> set (hops E k s)" by blast
  have "n \<le> k"
  proof (rule ccontr)
    assume "\<not> n \<le> k"
    then have "k \<in> set [0..<n]" by simp
    with assms(1) have "v \<notin> set (hops E k s)"
      unfolding shortest_distance_def list_all_iff by blast
    with k show False by simp
  qed
  with k show "int n \<le> m" by simp
next
  assume le: "int n \<le> m"
  from assms have "n \<noteq> 0" by (cases n) (auto simp: shortest_distance_def)
  then have "1 \<le> n" by simp
  with le assms(1) show "\<exists>k\<ge>1. int k \<le> m \<and> v \<in> set (hops E k s)"
    unfolding shortest_distance_def by blast
qed

text \<open>
  C4 (amended). For a start id in the graph and any other node \<open>v\<close>: if the distance from
  the start to \<open>v\<close> is \<open>n\<close>, then \<open>v\<close> is among the downstream dependencies exactly when
  \<open>n \<le> max_depth\<close>; if the distance from \<open>v\<close> to the start is \<open>n\<close>, then \<open>v\<close> is among the
  upstream dependencies exactly when \<open>n \<le> max_depth\<close>; and a node that no walk reaches is
  in neither result.
\<close>

theorem dependencies_within_depth:
  assumes "has_node (call_graph st) node_id" and "v \<noteq> node_id"
  shows "(shortest_distance (successor_edges (call_graph st)) node_id v n \<longrightarrow>
            (v \<in> get_downstream_dependencies st node_id max_depth \<longleftrightarrow> int n \<le> max_depth)) \<and>
         (shortest_distance (successor_edges (call_graph st)) v node_id n \<longrightarrow>
            (v \<in> get_upstream_dependencies st node_id max_depth \<longleftrightarrow> int n \<le> max_depth)) \<and>
         ((\<forall>k. v \<notin> set (hops (successor_edges (call_graph st)) k node_id)) \<longrightarrow>
            v \<notin> get_downstream_dependencies st node_id max_depth) \<and>
         ((\<forall>k. node_id \<notin> set (hops (successor_edges (call_graph st)) k v)) \<longrightarrow>
            v \<notin> get_upstream_dependencies st node_id max_depth)"
proof -
  let ?E = "successor_edges (call_graph st)"
  have down: "v \<in> get_downstream_dependencies st node_id max_depth \<longleftrightarrow> int n \<le> max_depth"
    if "shortest_distance ?E node_id v n"
    using shortest_distance_bound [OF that assms(2)] downstream_walks [OF assms(1)] by simp
  have up: "v \<in> get_upstream_dependencies st node_id max_depth \<longleftrightarrow> int n \<le> max_depth"
    if "shortest_distance ?E v node_id n"
    using shortest_distance_bound [OF that] assms(2) upstream_walks [OF assms(1)] by simp
  show ?thesis
    using down up by (auto simp: downstream_walks [OF assms(1)] upstream_walks [OF assms(1)])
qed

lemma chain_successor_edges:
  "successor_edges (call_graph chain_store) = [(''A'', ''B''), (''B'', ''C''), (''C'', ''D'')]"
  by (simp add: chain_graph successor_edges_def)

lemma chain_distance_A_C:
  "shortest_distance (successor_edges (call_graph chain_store)) ''A'' ''C'' 2"
  by (simp add: chain_successor_edges shortest_distance_def adjacent_def numeral_2_eq_2)

lemma chain_distance_B_D:
  "shortest_distance (successor_edges (call_graph chain_store)) ''B'' ''D'' 2"
  by (simp add: chain_successor_edges shortest_distance_def adjacent_def numeral_2_eq_2)

theorem dependencies_within_depth_witness:
  "has_node (call_graph chain_store) ''A'' \<and> ''C'' \<noteq> ''A'' \<and>
   shortest_distance (successor_edges (call_graph chain_store)) ''A'' ''C'' 2 \<and>
   ''C'' \<in> get_downstream_dependencies chain_store ''A'' 2 \<and>
   ''C'' \<notin> get_downstream_dependencies chain_store ''A'' 1 \<and>
   has_node (call_graph chain_store) ''D'' \<and> ''B'' \<noteq> ''D'' \<and>
   shortest_distance (successor_edges (call_graph chain_store)) ''B'' ''D'' 2 \<and>
   ''B'' \<in> get_upstream_dependencies chain_store ''D'' 2 \<and>
   ''B'' \<notin> get_upstream_dependencies chain_store ''D'' 1"
proof -
  have a: "has_node (call_graph chain_store) ''A''" and d: "has_node (call_graph chain_store) ''D''"
    by (simp_all add: chain_graph has_node_def)
  have ne: "''C'' \<noteq> ''A''" "''B'' \<noteq> ''D''" by simp_all
  show ?thesis
    using dependencies_within_depth [OF a ne(1), of 2 2] dependencies_within_depth [OF a ne(1), of 2 1]
      dependencies_within_depth [OF d ne(2), of 2 2] dependencies_within_depth [OF d ne(2), of 2 1]
      a d chain_distance_A_C chain_distance_B_D
    by simp
qed

text \<open>
  The bound \<open>d < max_depth\<close> of C4 as the specification states it fails on the chain: \<open>C\<close> is at distance 2 from \<open>A\<close>
  and is a downstream dependency of \<open>A\<close> at depth 2.
\<close>

theorem depth_bound_counterexample:
  "shortest_distance (successor_edges (call_graph chain_store)) ''A'' ''C'' 2 \<and>
   ''C'' \<in> get_downstream_dependencies chain_store ''A'' 2 \<and>
   \<not> (2 :: int) < 2"
proof -
  have "get_downstream_dependencies chain_store ''A'' 2 = {''B'', ''C''}"
    by (auto simp: get_downstream_dependencies_def chain_graph has_node_def successor_edges_def
        adjacent_def)
  with chain_distance_A_C show ?thesis by simp
qed

lemma cycle_graph:
  "call_graph cycle_store =
     \<lparr>nx_node = [(''A'', None), (''B'', None), (''C'', None)],
      nx_adj = [((''A'', ''B''), (''call'', 1)), ((''B'', ''C''), (''call'', 1)),
                ((''C'', ''A''), (''call'', 1))]\<rparr>"
  by (simp add: cycle_store_def add_code_relation_def GraphCodeBERTEmbedder_init_def DiGraph_new_def
      add_edge_def touch_node_def has_node_def Let_def)

text \<open>
  C6 (amended). For a start id in the graph, the start itself is in the downstream result,
  and likewise in the upstream result, exactly when a closed walk of at least one and at
  most \<open>max_depth\<close> edges leads from the start back to it; so it is never in the result
  when no cycle of at most \<open>max_depth\<close> edges passes through it.
\<close>

theorem start_in_result_iff_on_cycle:
  assumes "has_node (call_graph st) node_id"
  shows "(node_id \<in> get_downstream_dependencies st node_id max_depth \<longleftrightarrow>
            (\<exists>k\<ge>1. int k \<le> max_depth \<and>
                   node_id \<in> set (hops (successor_edges (call_graph st)) k node_id))) \<and>
         (node_id \<in> get_upstream_dependencies st node_id max_depth \<longleftrightarrow>
            (\<exists>k\<ge>1. int k \<le> max_depth \<and>
                   node_id \<in> set (hops (successor_edges (call_graph st)) k node_id)))"
  by (simp add: downstream_walks [OF assms] upstream_walks [OF assms])

theorem start_in_result_iff_on_cycle_witness:
  "has_node (call_graph cycle_store) ''A'' \<and>
   ''A'' \<in> set (hops (successor_edges (call_graph cycle_store)) 3 ''A'') \<and>
   ''A'' \<in> get_downstream_dependencies cycle_store ''A'' 3 \<and>
   ''A'' \<in> get_upstream_dependencies cycle_store ''A'' 3"
proof -
  have a: "has_node (call_graph cycle_store) ''A''"
    by (simp add: cycle_graph has_node_def)
  have w: "''A'' \<in> set (hops (successor_edges (call_graph cycle_store)) 3 ''A'')"
    by (simp add: cycle_graph successor_edges_def adjacent_def numeral_3_eq_3)
  then have "\<exists>k\<ge>1. int k \<le> 3 \<and> ''A'' \<in> set (hops (successor_edges (call_graph cycle_store)) k ''A'')"
    by (intro exI [of _ 3]) simp
  with start_in_result_iff_on_cycle [OF a, of 3] a w show ?thesis by simp
qed

text \<open>
  C6 as the specification states it fails on the cycle \<open>A \<rightarrow> B \<rightarrow> C \<rightarrow> A\<close>: at depth 3 the start \<open>A\<close> is in both
  results.
\<close>

theorem start_excluded_counterexample:
  "get_downstream_dependencies cycle_store ''A'' 3 = {''A'', ''B'', ''C''} \<and>
   get_upstream_dependencies cycle_store ''A'' 3 = {''A'', ''B'', ''C''}"
  by (auto simp: get_downstream_dependencies_def get_upstream_dependencies_def cycle_graph
      has_node_def successor_edges_def predecessor_edges_def adjacent_def)

section \<open>The graph calls inside the loops do not raise\<close>

lemma has_node_keys: "has_node G n \<longleftrightarrow> n \<in> fst ` set (nx_node G)"
  by (simp add: has_node_def map_of_eq_None_iff)

lemma has_node_add_node: "has_node (add_node k a G) n \<longleftrightarrow> n = k \<or> has_node G n"
  by (auto simp: has_node_keys add_node_def dom_update)

lemma has_node_touch_node: "has_node (touch_node k G) n \<longleftrightarrow> n = k \<or> has_node G n"
  by (auto simp: touch_node_def has_node_keys)

lemma has_node_add_edge: "has_node (add_edge u v a G) n \<longleftrightarrow> n = u \<or> n = v \<or> has_node G n"
  by (auto simp: add_edge_def Let_def has_node_keys touch_node_def)

lemma graph_wf_new: "graph_wf DiGraph_new"
  by (simp add: graph_wf_def DiGraph_new_def)

lemma graph_wf_add_node: "graph_wf G \<Longrightarrow> graph_wf (add_node n a G)"
  by (auto simp: graph_wf_def list_all_iff has_node_add_node) (auto simp: add_node_def)

lemma set_alist_update: "set (AList.update k v al) \<subseteq> insert (k, v) (set al)"
  by (induction al) auto

lemma graph_wf_add_edge:
  assumes "graph_wf G"
  shows "graph_wf (add_edge u v a G)"
proof -
  have "has_node (add_edge u v a G) x \<and> has_node (add_edge u v a G) y"
    if "((x, y), b) \<in> set (nx_adj (add_edge u v a G))" for x y b
  proof -
    from that have "((x, y), b) \<in> set (AList.update (u, v) a (nx_adj G))"
      by (simp add: add_edge_def Let_def touch_node_def split: if_splits)
    with set_alist_update have "((x, y), b) = ((u, v), a) \<or> ((x, y), b) \<in> set (nx_adj G)"
      by fastforce
    then show ?thesis
    proof
      assume "((x, y), b) = ((u, v), a)"
      then show ?thesis by (simp add: has_node_add_edge)
    next
      assume "((x, y), b) \<in> set (nx_adj G)"
      with assms have "has_node G x \<and> has_node G y"
        by (auto simp: graph_wf_def list_all_iff)
      then show ?thesis by (simp add: has_node_add_edge)
    qed
  qed
  then show ?thesis unfolding graph_wf_def list_all_iff by blast
qed

text \<open>
  In such a graph every neighbour that a loop reads is a node of the graph, so the loop
  never asks the graph for the neighbours of an id that it does not hold.
\<close>

lemma neighbours_are_nodes:
  assumes "graph_wf G"
  shows "n \<in> set (adjacent (successor_edges G) c) \<Longrightarrow> has_node G n"
    and "n \<in> set (adjacent (predecessor_edges G) c) \<Longrightarrow> has_node G n"
  using assms
  by (auto simp: graph_wf_def list_all_iff adjacent_def successor_edges_def predecessor_edges_def)

lemma neighbour_calls_succeed:
  assumes "graph_wf G"
  shows "successors G c = Inr ns \<Longrightarrow> n \<in> set ns \<Longrightarrow> successors G n \<noteq> Inl NetworkXError"
    and "predecessors G c = Inr ns \<Longrightarrow> n \<in> set ns \<Longrightarrow> predecessors G n \<noteq> Inl NetworkXError"
  using neighbours_are_nodes [OF assms]
  by (auto simp: successors_def predecessors_def split: if_splits)

end
